theory Spec2Isabelle
  imports Complex_Main "HOL-Library.Multiset"
begin

section \<open>Pauli strings\<close>

text \<open>
  The module \<^verbatim>\<open>mitiq/observable/pauli.py\<close> is imported by
  \<^verbatim>\<open>observable.py\<close> but is not among the sources. What \<^verbatim>\<open>Observable\<close> uses of a
  \<^verbatim>\<open>PauliString\<close> (its qubits, \<^verbatim>\<open>can_be_measured_with\<close>, \<^verbatim>\<open>matrix\<close>) is modelled
  from the data model of the specification.
\<close>

datatype Pauli = Pauli_I | Pauli_X | Pauli_Y | Pauli_Z

text \<open>
  Modelled from the spec: the class \<^verbatim>\<open>PauliString\<close> of pauli.py. "An assignment of
  Pauli operators (I, X, Y, Z) to a subset of qubit indices, with a sign." The assignment is
  an association list from qubit index to operator; the sign is the coefficient of the term.
  Terms are values, equal when their contents are: "duplicates collapse" in the set of an
  Observable.
\<close>

record PauliString =
  coeff :: complex
  ops :: "(int \<times> Pauli) list"

text \<open>
  Modelled from the spec: \<^verbatim>\<open>pauli._pauli.qubits\<close>, the qubit indices the term assigns an
  operator to.
\<close>

definition PauliString_qubits :: "PauliString \<Rightarrow> int list" where
  "PauliString_qubits p = map fst (ops p)"

text \<open>
  Modelled from the spec: the operator a term has on a qubit, the identity where the term
  assigns none.
\<close>

definition pauli_at :: "PauliString \<Rightarrow> int \<Rightarrow> Pauli" where
  "pauli_at p q = (case map_of (ops p) q of None \<Rightarrow> Pauli_I | Some g \<Rightarrow> g)"

text \<open>
  Modelled from the spec: \<^verbatim>\<open>PauliString.can_be_measured_with\<close> of pauli.py. "Two
  PauliStrings are compatible (simultaneously measurable) if their non-identity supports agree
  wherever both are non-identity (i.e., qubit-wise commutation)."
\<close>

definition can_be_measured_with :: "PauliString \<Rightarrow> PauliString \<Rightarrow> bool" where
  "can_be_measured_with p r =
     list_all (\<lambda>q. pauli_at p q = Pauli_I \<or> pauli_at r q = Pauli_I \<or> pauli_at p q = pauli_at r q)
       (PauliString_qubits p)"

section \<open>Python sets\<close>

text \<open>
  A Python \<^verbatim>\<open>set\<close> is modelled by the list of its elements in iteration order: no element
  occurs twice. CPython derives that order from the elements' hashes; \<^verbatim>\<open>PauliString.__hash__\<close>
  is not among the sources, so the model takes a key function \<open>hash\<close> as a parameter and
  iterates in ascending key order (elements of equal key in the order of their first
  insertion). Every arrangement of a finite set is the ascending order of some key
  (\<open>py_set_any_order\<close> below), so a statement for every \<open>hash\<close> is a statement for every
  iteration order. \<^verbatim>\<open>set.pop()\<close> removes the first element of the iteration order.
\<close>

definition py_set :: "('a \<Rightarrow> nat) \<Rightarrow> 'a list \<Rightarrow> 'a list" where
  "py_set hash xs = sort_key hash (rev (remdups (rev xs)))"

text \<open>
  \<^verbatim>\<open>copy.deepcopy(s)\<close> of a set builds a new set object from copies of the elements of
  \<^verbatim>\<open>s\<close>. CPython fills a new table, and the copy need not iterate in the order in which
  \<^verbatim>\<open>s\<close> does: \<^verbatim>\<open>set((0, 7, 15))\<close> iterates as 0, 15, 7 and its deep copy as 0, 7, 15.
  The order of the copy is therefore a parameter of its own, the key \<open>copy_hash\<close>: the
  copy holds the elements of \<^verbatim>\<open>s\<close>, each once, in ascending order of that key. Terms are
  values, so the copy of a term is the term.
\<close>

definition deepcopy_set :: "('a \<Rightarrow> nat) \<Rightarrow> 'a list \<Rightarrow> 'a list" where
  "deepcopy_set copy_hash s = py_set copy_hash s"

section \<open>The class Observable\<close>

text \<open>
  \<^verbatim>\<open>
  def __init__(self, *paulis: PauliString) -> None:
      self._paulis = set(paulis)
      self._nterms = len(self._paulis)
  \<close>
\<close>

record Observable =
  o_paulis :: "PauliString list"
  o_nterms :: nat

definition Observable_init :: "(PauliString \<Rightarrow> nat) \<Rightarrow> PauliString list \<Rightarrow> Observable" where
  "Observable_init hash paulis =
     (let s = py_set hash paulis in \<lparr>o_paulis = s, o_nterms = length s\<rparr>)"

definition Observable_nterms :: "Observable \<Rightarrow> nat" where
  "Observable_nterms self = o_nterms self"

text \<open>
  \<^verbatim>\<open>
  def _qubits(self) -> Set[cirq.Qid]:
      return {q for pauli in self._paulis for q in pauli._pauli.qubits}

  @property
  def qubit_indices(self) -> List[int]:
      return [cast(cirq.LineQubit, q).x for q in sorted(self._qubits())]

  @property
  def nqubits(self) -> int:
      return len(self.qubit_indices)
  \<close>
  A line qubit is its index \<open>x\<close>, and line qubits are ordered by index. The set of qubits is
  only ever sorted, so its iteration order does not matter and it is a HOL set.
\<close>

definition Observable_qubits :: "Observable \<Rightarrow> int set" where
  "Observable_qubits self = set (concat (map PauliString_qubits (o_paulis self)))"

definition Observable_qubit_indices :: "Observable \<Rightarrow> int list" where
  "Observable_qubit_indices self = sorted_list_of_set (Observable_qubits self)"

definition Observable_nqubits :: "Observable \<Rightarrow> nat" where
  "Observable_nqubits self = length (Observable_qubit_indices self)"

subsection \<open>partition\<close>

text \<open>
  \<^verbatim>\<open>
  def partition(self) -> Set[FrozenSet[PauliString]]:
      plists: List[List[PauliString]] = []
      paulis = copy.deepcopy(self._paulis)

      while paulis:
          pauli = paulis.pop()
          added = False
          for (i, plist) in enumerate(plists):
              if all(pauli.can_be_measured_with(p) for p in plist):
                  plists[i].append(pauli)
                  added = True
                  break

          if not added:
              plists.append([pauli])

      return set([frozenset(plist) for plist in plists])
  \<close>
  The inner \<^verbatim>\<open>for\<close> loop is \<open>plists_add\<close>: it returns the updated \<^verbatim>\<open>plists\<close> and the
  flag \<^verbatim>\<open>added\<close>. The \<^verbatim>\<open>while\<close> loop is \<open>partition_loop\<close>: its list argument is the
  set \<^verbatim>\<open>paulis\<close> in the order in which \<^verbatim>\<open>pop\<close> empties it. Both loops are written for any
  type of terms and any compatibility test \<open>cmw\<close>.
\<close>

fun plists_add :: "('p \<Rightarrow> 'p \<Rightarrow> bool) \<Rightarrow> 'p \<Rightarrow> 'p list list \<Rightarrow> 'p list list \<times> bool" where
  "plists_add cmw pauli [] = ([], False)"
| "plists_add cmw pauli (plist # rest) =
     (if list_all (cmw pauli) plist then ((plist @ [pauli]) # rest, True)
      else (case plists_add cmw pauli rest of (rest', added) \<Rightarrow> (plist # rest', added)))"

fun partition_loop :: "('p \<Rightarrow> 'p \<Rightarrow> bool) \<Rightarrow> 'p list \<Rightarrow> 'p list list \<Rightarrow> 'p list list" where
  "partition_loop cmw [] plists = plists"
| "partition_loop cmw (pauli # paulis) plists =
     (case plists_add cmw pauli plists of
        (plists', added) \<Rightarrow>
          partition_loop cmw paulis (if added then plists' else plists' @ [[pauli]]))"

text \<open>
  \<^verbatim>\<open>paulis\<close> is the deep copy of the Observable's set, iterated by its own key
  \<open>copy_hash\<close>: the loop pops the terms in the order of the copy, which need not be the
  order in which \<^verbatim>\<open>self._paulis\<close> iterates. That the copy is a separate object matters
  for the store-level model below, not here.
\<close>

definition Observable_partition :: "(PauliString \<Rightarrow> nat) \<Rightarrow> Observable \<Rightarrow> PauliString set set" where
  "Observable_partition copy_hash self =
     (let paulis = deepcopy_set copy_hash (o_paulis self);
          plists = partition_loop can_be_measured_with paulis []
      in set (map set plists))"

subsection \<open>matrix\<close>

text \<open>
  What the operations raise: numpy's \<^verbatim>\<open>ValueError\<close>, and the configuration error of the
  training-data generator, which carries the invalid policy name.
\<close>

datatype error = ValueError | ConfigurationError string

text \<open>
  A dense array is the list of its rows. Its entries are values of the array's
  \<^verbatim>\<open>dtype\<close>, an argument of \<^verbatim>\<open>matrix\<close>. numpy is not among the sources; what
  \<^verbatim>\<open>matrix\<close> uses of a dtype is taken as given, as three components: the zero that
  \<^verbatim>\<open>np.zeros\<close> fills an array with, the conversion \<^verbatim>\<open>astype\<close> of a complex number to
  a value of the dtype, and the addition that \<^verbatim>\<open>+=\<close> performs on two values of the dtype.
  For \<^verbatim>\<open>np.complex128\<close> the conversion and the addition round to the nearest
  floating-point number and overflow to an infinity, so the addition is not associative;
  nothing is assumed of them here.
\<close>

type_synonym 'c matrix = "'c list list"

record 'c dtype =
  dt_zero :: 'c
  dt_astype :: "complex \<Rightarrow> 'c"
  dt_add :: "'c \<Rightarrow> 'c \<Rightarrow> 'c"

text \<open>\<^verbatim>\<open>np.zeros(shape=(r, c), dtype=dtype)\<close>.\<close>

definition zeros :: "nat \<Rightarrow> nat \<Rightarrow> 'c dtype \<Rightarrow> 'c matrix" where
  "zeros r c dtype = replicate r (replicate c (dt_zero dtype))"

text \<open>\<^verbatim>\<open>a.astype(dtype=dtype)\<close>: every entry converted.\<close>

definition astype :: "complex matrix \<Rightarrow> 'c dtype \<Rightarrow> 'c matrix" where
  "astype a dtype = map (map (dt_astype dtype)) a"

text \<open>
  \<^verbatim>\<open>matrix += other\<close> on arrays of one dtype: entry by entry, the dtype's addition of the
  entry of \<^verbatim>\<open>matrix\<close> and the entry of \<^verbatim>\<open>other\<close>, stored in \<^verbatim>\<open>matrix\<close>. numpy raises
  \<^verbatim>\<open>ValueError\<close> when the shapes cannot be broadcast together; the model raises whenever
  the shapes differ.
\<close>

definition mat_iadd :: "'c dtype \<Rightarrow> 'c matrix \<Rightarrow> 'c matrix \<Rightarrow> error + 'c matrix" where
  "mat_iadd dtype a b =
     (if map length a = map length b then Inr (map2 (map2 (dt_add dtype)) a b)
      else Inl ValueError)"

text \<open>
  Modelled from the spec: the matrices of the single-qubit operators \<open>I, X, Y, Z\<close>, the
  factors of a Pauli string ("a tensor-product operator over qubits").
\<close>

fun pauli_matrix :: "Pauli \<Rightarrow> complex matrix" where
  "pauli_matrix Pauli_I = [[1, 0], [0, 1]]"
| "pauli_matrix Pauli_X = [[0, 1], [1, 0]]"
| "pauli_matrix Pauli_Y = [[0, - \<i>], [\<i>, 0]]"
| "pauli_matrix Pauli_Z = [[1, 0], [0, - 1]]"

text \<open>Modelled from the spec: the tensor (Kronecker) product of two matrices.\<close>

definition kron :: "complex matrix \<Rightarrow> complex matrix \<Rightarrow> complex matrix" where
  "kron a b = concat (map (\<lambda>ra. map (\<lambda>rb. concat (map (\<lambda>x. map (\<lambda>y. x * y) rb) ra)) b) a)"

text \<open>
  Modelled from the spec: \<^verbatim>\<open>PauliString.matrix(qubit_indices_to_include)\<close> of pauli.py.
  "Each term's matrix embedded according to the observable's full qubit index list (terms
  acting on a subset of qubits are implicitly tensored with identity on the rest, sharing the
  observable's global qubit index ordering)": the coefficient times the tensor product, over
  the given qubit indices in their order, of the term's operator on each qubit. The entries
  are the numbers the term's matrix stands for; what an array can hold of them is decided
  by the conversion \<^verbatim>\<open>astype\<close> that \<^verbatim>\<open>matrix\<close> applies to it.
\<close>

definition PauliString_matrix :: "PauliString \<Rightarrow> int list \<Rightarrow> complex matrix" where
  "PauliString_matrix p qubit_indices_to_include =
     map (map (\<lambda>x. coeff p * x))
       (foldr (\<lambda>q m. kron (pauli_matrix (pauli_at p q)) m) qubit_indices_to_include [[1]])"

text \<open>
  \<^verbatim>\<open>
  def matrix(self, dtype: type = np.complex128) -> np.ndarray:
      qubit_indices = self.qubit_indices
      n = self.nqubits

      matrix = np.zeros(shape=(2 ** n, 2 ** n), dtype=dtype)
      for pauli in self._paulis:
          matrix += pauli.matrix(
              qubit_indices_to_include=qubit_indices
          ).astype(dtype=dtype)

      return matrix
  \<close>
  The \<^verbatim>\<open>for\<close> loop is \<open>matrix_loop\<close>, over the Observable's own set in its iteration
  order.
\<close>

fun matrix_loop ::
  "'c dtype \<Rightarrow> int list \<Rightarrow> PauliString list \<Rightarrow> 'c matrix \<Rightarrow> error + 'c matrix" where
  "matrix_loop dtype qubit_indices [] matrix = Inr matrix"
| "matrix_loop dtype qubit_indices (pauli # paulis) matrix =
     (case mat_iadd dtype matrix (astype (PauliString_matrix pauli qubit_indices) dtype) of
        Inl e \<Rightarrow> Inl e
      | Inr matrix' \<Rightarrow> matrix_loop dtype qubit_indices paulis matrix')"

definition Observable_matrix :: "Observable \<Rightarrow> 'c dtype \<Rightarrow> error + 'c matrix" where
  "Observable_matrix self dtype =
     (let qubit_indices = Observable_qubit_indices self;
          n = Observable_nqubits self;
          matrix = zeros (2 ^ n) (2 ^ n) dtype
      in matrix_loop dtype qubit_indices (o_paulis self) matrix)"

subsection \<open>Two dtypes\<close>

text \<open>
  Arithmetic without rounding: the entries are complex numbers, the conversion changes
  nothing and the addition is that of the complex numbers. No numpy dtype is like this; it
  is the arithmetic in which a sum of matrices is the exact sum.
\<close>

definition exact_complex :: "complex dtype" where
  "exact_complex = \<lparr>dt_zero = 0, dt_astype = (\<lambda>z. z), dt_add = (\<lambda>a b. a + b)\<rparr>"

text \<open>
  \<^verbatim>\<open>np.float64\<close>, the IEEE 754 binary64 format: a value is a finite number, an infinity
  or a NaN. The finite values are the numbers \<open>m * 2 ^ e\<close> with \<open>|m| < 2 ^ 53\<close> and
  \<open>- 1074 \<le> e \<le> 971\<close>; the type below does not enforce this, the rounding
  \<open>float64_round\<close> produces no other. The two zeros of the format are one value here.
\<close>

datatype float64 = Finite real | PlusInf | MinusInf | NaN

text \<open>The integer nearest to a number, the even one of the two when it lies halfway.\<close>

definition round_half_even :: "real \<Rightarrow> int" where
  "round_half_even x =
     (let n = \<lfloor>x\<rfloor>; r = x - of_int n
      in if r < 1 / 2 then n else if 1 / 2 < r then n + 1 else if even n then n else n + 1)"

text \<open>
  Rounding of a real number to binary64, to nearest, ties to even: with \<open>e\<close> the exponent
  of the last place of numbers of the size of \<open>x\<close> (not below \<open>- 1074\<close>, where the
  subnormal numbers lie), \<open>x\<close> is rounded to a multiple of \<open>2 ^ e\<close>; a result of magnitude
  \<open>2 ^ 1024\<close> is out of the format and becomes an infinity.
\<close>

definition float64_round :: "real \<Rightarrow> float64" where
  "float64_round x =
     (if x = 0 then Finite 0
      else
        let e = max (\<lfloor>log 2 \<bar>x\<bar>\<rfloor> - 52) (- 1074);
            y = of_int (round_half_even (x / 2 powr of_int e)) * 2 powr of_int e
        in if 2 ^ 1024 \<le> \<bar>y\<bar> then (if 0 < x then PlusInf else MinusInf) else Finite y)"

text \<open>Addition of binary64: the rounded sum of two finite values.\<close>

fun float64_add :: "float64 \<Rightarrow> float64 \<Rightarrow> float64" where
  "float64_add (Finite x) (Finite y) = float64_round (x + y)"
| "float64_add NaN b = NaN"
| "float64_add a NaN = NaN"
| "float64_add PlusInf MinusInf = NaN"
| "float64_add MinusInf PlusInf = NaN"
| "float64_add PlusInf b = PlusInf"
| "float64_add a PlusInf = PlusInf"
| "float64_add MinusInf b = MinusInf"
| "float64_add a MinusInf = MinusInf"

text \<open>
  \<^verbatim>\<open>np.complex128\<close>, the default \<^verbatim>\<open>dtype\<close> of \<^verbatim>\<open>matrix\<close>: a real and an imaginary
  part, each a binary64; conversion and addition work on the two parts separately.
\<close>

datatype complex128 = Complex128 float64 float64

fun complex128_add :: "complex128 \<Rightarrow> complex128 \<Rightarrow> complex128" where
  "complex128_add (Complex128 a b) (Complex128 c d) =
     Complex128 (float64_add a c) (float64_add b d)"

definition np_complex128 :: "complex128 dtype" where
  "np_complex128 =
     \<lparr>dt_zero = Complex128 (Finite 0) (Finite 0),
      dt_astype = (\<lambda>z. Complex128 (float64_round (Re z)) (float64_round (Im z))),
      dt_add = complex128_add\<rparr>"

text \<open>The complex number a value of \<^verbatim>\<open>np.complex128\<close> stands for, when both parts are finite.\<close>

fun complex128_value :: "complex128 \<Rightarrow> complex option" where
  "complex128_value (Complex128 (Finite x) (Finite y)) = Some (Complex x y)"
| "complex128_value c = None"

section \<open>The Observable as an object: which sets partition() writes to\<close>

text \<open>
  \<^verbatim>\<open>partition\<close> empties a set with \<^verbatim>\<open>pop\<close>. Whether that set is the Observable's own
  depends on \<^verbatim>\<open>copy.deepcopy\<close> giving a new object, so this section keeps set objects in
  a store: the list of all set objects, a reference being a position in it. An Observable
  object holds a reference to its set \<^verbatim>\<open>_paulis\<close> and the integer \<^verbatim>\<open>_nterms\<close>. Terms are
  values. A lookup outside the store (a dangling reference, which Python does not have)
  is \<open>None\<close>.
\<close>

type_synonym ref = nat

type_synonym store = "PauliString list list"


definition set_at :: "store \<Rightarrow> ref \<Rightarrow> PauliString list option" where
  "set_at st r = (if r < length st then Some (st ! r) else None)"



text \<open>
  \<^verbatim>\<open>s.pop()\<close> on a non-empty set: removes an element from the object \<^verbatim>\<open>s\<close> refers to and
  returns it. \<open>None\<close> on the empty set, where the \<^verbatim>\<open>while\<close> loop stops before popping.
\<close>

definition set_pop :: "store \<Rightarrow> ref \<Rightarrow> (PauliString \<times> store) option" where
  "set_pop st r =
     (case set_at st r of
        None \<Rightarrow> None
      | Some [] \<Rightarrow> None
      | Some (x # xs) \<Rightarrow> Some (x, st[r := xs]))"

lemma set_pop_shrinks:
  "set_pop st r = Some (x, st') \<Longrightarrow> length (st' ! r) < length (st ! r)"
  by (auto simp: set_pop_def set_at_def split: if_splits list.splits)

text \<open>
  The \<^verbatim>\<open>while paulis:\<close> loop of \<^verbatim>\<open>partition\<close> on the store. \<^verbatim>\<open>plists\<close> is a local list of
  new lists, which no other object refers to; it is passed by value.
\<close>

function partition_while ::
  "store \<Rightarrow> ref \<Rightarrow> PauliString list list \<Rightarrow> PauliString list list \<times> store" where
  "partition_while st paulis plists =
     (case set_pop st paulis of
        None \<Rightarrow> (plists, st)
      | Some (pauli, st') \<Rightarrow>
          (case plists_add can_be_measured_with pauli plists of
             (plists', added) \<Rightarrow>
               partition_while st' paulis (if added then plists' else plists' @ [[pauli]])))"
  by pat_completeness auto
termination
  by (relation "measure (\<lambda>(st, paulis, plists). length (st ! paulis))")
    (auto dest: set_pop_shrinks)

declare partition_while.simps [simp del]



section \<open>Training circuits for Clifford data regression\<close>

text \<open>
  The module \<^verbatim>\<open>clifford_training_data.py\<close> is not among the sources; only its test
  module is. Its functions are modelled from sections 4.1 and 4.2 of the specification,
  under the names by which \<^verbatim>\<open>test_clifford_training_data.py\<close> imports them (without the
  leading underscore) and with the argument order of its calls. Angles are real numbers:
  the rounding of floating-point numbers is outside the model. The tolerance of the
  classification, which the specification only calls small, is the parameter \<open>tol\<close>.
\<close>

text \<open>
  \<^verbatim>\<open>CLIFFORD_ANGLES = (0.0, np.pi / 2, np.pi, (3 / 2) * (np.pi))\<close>, from the test module.
\<close>

definition CLIFFORD_ANGLES :: "real list" where
  "CLIFFORD_ANGLES = [0, pi / 2, pi, 3 / 2 * pi]"

text \<open>
  Modelled from the spec: the reduction \<^verbatim>\<open>ang % (2 * np.pi)\<close> of an angle, "reduced
  modulo \<open>2\<pi>\<close> first", with the sign convention of Python: the result lies in \<open>[0, 2\<pi>)\<close>.
\<close>

definition mod_2pi :: "real \<Rightarrow> real" where
  "mod_2pi ang = ang - 2 * pi * of_int \<lfloor>ang / (2 * pi)\<rfloor>"

text \<open>
  Modelled from the spec: \<^verbatim>\<open>_is_clifford_angle\<close>. "Returns true iff \<open>\<theta> mod 2\<pi>\<close> lies within
  tolerance of \<open>{0, \<pi>/2, \<pi>, 3\<pi>/2}\<close>."
\<close>

definition is_clifford_angle :: "real \<Rightarrow> real \<Rightarrow> bool" where
  "is_clifford_angle tol ang = list_ex (\<lambda>c. \<bar>mod_2pi ang - c\<bar> \<le> tol) CLIFFORD_ANGLES"

text \<open>
  Modelled from the spec: the "absolute circular distance" between two angles, the shorter
  way round the circle.
\<close>

definition circular_distance :: "real \<Rightarrow> real \<Rightarrow> real" where
  "circular_distance a c = (let d = mod_2pi (a - c) in min d (2 * pi - d))"

text \<open>
  Modelled from the spec: \<^verbatim>\<open>_closest_clifford\<close>. "Deterministic nearest Clifford angle (by
  absolute circular distance; ties broken by angle order)": the canonical angles are tried
  in ascending order and a later one replaces the best so far only when strictly nearer.
\<close>

definition closest_clifford :: "real \<Rightarrow> real" where
  "closest_clifford ang =
     foldl (\<lambda>best c. if circular_distance ang c < circular_distance ang best then c else best)
       (hd CLIFFORD_ANGLES) (tl CLIFFORD_ANGLES)"

text \<open>
  Modelled from the spec: the random state (\<^verbatim>\<open>np.random.RandomState\<close>) the operations draw
  from. The specification fixes no generator; the model is the sequence of variates the
  generator will return, nominally uniform in \<open>[0, 1)\<close>, and the number drawn so far.
  Probabilities are outside the model: \<open>choice\<close> is the inverse-distribution pick of an index
  by one variate, which returns a valid index whatever the variate.
\<close>

datatype random_state = RandomState (variates: "nat \<Rightarrow> real") (drawn: nat)

definition random_sample :: "random_state \<Rightarrow> real \<times> random_state" where
  "random_sample rs = (variates rs (drawn rs), RandomState (variates rs) (Suc (drawn rs)))"

fun pick_from :: "real list \<Rightarrow> real \<Rightarrow> nat" where
  "pick_from [] t = 0"
| "pick_from [w] t = 0"
| "pick_from (w # v # ws) t = (if t < w then 0 else Suc (pick_from (v # ws) (t - w)))"

definition choice :: "real list \<Rightarrow> random_state \<Rightarrow> nat \<times> random_state" where
  "choice p rs = (case random_sample rs of (u, rs') \<Rightarrow> (pick_from p (u * sum_list p), rs'))"

text \<open>
  Modelled from the spec: the "Gaussian kernel" of a distance with a spread. The
  specification gives no formula; no property proved here depends on the one chosen.
\<close>

definition gaussian_kernel :: "real \<Rightarrow> real \<Rightarrow> real" where
  "gaussian_kernel d sigma = exp (- ((d / sigma) ^ 2))"

text \<open>
  Modelled from the spec: \<^verbatim>\<open>_random_clifford\<close>. "Uniformly pick one of the four canonical
  angles."
\<close>

definition random_clifford :: "real \<Rightarrow> random_state \<Rightarrow> real \<times> random_state" where
  "random_clifford ang rs =
     (case choice (map (\<lambda>c. 1) CLIFFORD_ANGLES) rs of (i, rs') \<Rightarrow> (CLIFFORD_ANGLES ! i, rs'))"

text \<open>
  Modelled from the spec: \<^verbatim>\<open>_probabilistic_angle_to_clifford\<close>. "Sample a canonical angle
  with probability proportional to a Gaussian kernel of distance from the original angle,
  spread \<open>sigma_replace\<close>."
\<close>

definition probabilistic_angle_to_clifford ::
  "real \<Rightarrow> real \<Rightarrow> random_state \<Rightarrow> real \<times> random_state" where
  "probabilistic_angle_to_clifford ang sigma rs =
     (case choice (map (\<lambda>c. gaussian_kernel (circular_distance ang c) sigma) CLIFFORD_ANGLES) rs of
        (i, rs') \<Rightarrow> (CLIFFORD_ANGLES ! i, rs'))"

text \<open>
  Modelled from the spec: a random operation applied to each angle of a sequence in turn,
  each drawing from the random state the one before has left.
\<close>

fun map_random ::
  "('a \<Rightarrow> random_state \<Rightarrow> 'b \<times> random_state) \<Rightarrow> 'a list \<Rightarrow> random_state \<Rightarrow>
     'b list \<times> random_state" where
  "map_random f [] rs = ([], rs)"
| "map_random f (x # xs) rs =
     (case f x rs of
        (y, rs1) \<Rightarrow> (case map_random f xs rs1 of (ys, rs2) \<Rightarrow> (y # ys, rs2)))"

text \<open>
  Modelled from the spec: \<^verbatim>\<open>_replace(rz_non_cliff_selected, method_replace, sigma_select,
  sigma_replace, random_state)\<close>. Replacement policies \<^verbatim>\<open>closest\<close>, \<^verbatim>\<open>random\<close> and
  \<^verbatim>\<open>probabilistic\<close>; "unrecognized policy name is a configuration error (fails fast, naming
  the invalid value)".
\<close>

definition replace ::
  "real list \<Rightarrow> string \<Rightarrow> real \<Rightarrow> real \<Rightarrow> random_state \<Rightarrow>
     error + (real list \<times> random_state)" where
  "replace rz_non_cliff_selected method_replace sigma_select sigma_replace rs =
     (if method_replace = ''closest'' then
        Inr (map closest_clifford rz_non_cliff_selected, rs)
      else if method_replace = ''random'' then
        Inr (map_random random_clifford rz_non_cliff_selected rs)
      else if method_replace = ''probabilistic'' then
        Inr (map_random (\<lambda>ang. probabilistic_angle_to_clifford ang sigma_replace)
               rz_non_cliff_selected rs)
      else Inl (ConfigurationError method_replace))"

text \<open>
  Modelled from the spec: sampling "without replacement". Each item is an index with its
  weight; an index picked is removed from the items before the next pick.
\<close>

fun sample_without_replacement ::
  "(nat \<times> real) list \<Rightarrow> nat \<Rightarrow> random_state \<Rightarrow> nat list \<times> random_state" where
  "sample_without_replacement items 0 rs = ([], rs)"
| "sample_without_replacement items (Suc k) rs =
     (if items = [] then ([], rs)
      else (case choice (map snd items) rs of
              (i, rs1) \<Rightarrow>
                (case sample_without_replacement (take i items @ drop (Suc i) items) k rs1 of
                   (chosen, rs2) \<Rightarrow> (fst (items ! i) # chosen, rs2))))"

text \<open>
  Modelled from the spec: \<^verbatim>\<open>round\<close>, as Python rounds a float to an integer: to the
  nearest, a half to the even neighbour.
\<close>

definition py_round :: "real \<Rightarrow> int" where
  "py_round x =
     (let f = \<lfloor>x\<rfloor>; d = x - of_int f
      in if d < 1 / 2 then f else if 1 / 2 < d then f + 1 else if even f then f else f + 1)"

text \<open>
  Modelled from the spec: \<^verbatim>\<open>_select(rz_non_cliff, fraction_non_clifford, method_select,
  sigma_select, random_state)\<close>. "The function returns the indices to CHANGE (replace), sized
  \<open>total_non_clifford - round(fraction \<times> total_non_clifford)\<close>." Policy \<^verbatim>\<open>random\<close>: "uniformly
  sample the complement set (indices to replace)". Policy \<^verbatim>\<open>probabilistic\<close>: "weight each
  angle's probability of being left unreplaced by a Gaussian kernel centered at 0 distance
  from its nearest Clifford angle with spread \<open>sigma_select\<close>; sample without replacement":
  the indices left unreplaced are sampled and the others returned. The test module asserts
  the size \<^verbatim>\<open>non_cliffords - int(non_cliffords * fraction_non_clifford)\<close> for its one
  circuit, with \<^verbatim>\<open>int\<close> where the specification says \<^verbatim>\<open>round\<close>; the model follows the
  specification.
\<close>

definition select ::
  "real list \<Rightarrow> real \<Rightarrow> string \<Rightarrow> real \<Rightarrow> random_state \<Rightarrow> error + (nat list \<times> random_state)" where
  "select rz_non_cliff fraction_non_clifford method_select sigma_select rs =
     (let total_non_cliff = length rz_non_cliff;
          n_keep = nat (py_round (fraction_non_clifford * real total_non_cliff));
          n_change = total_non_cliff - n_keep;
          columns = [0..<total_non_cliff]
      in if method_select = ''random'' then
           Inr (sample_without_replacement (map (\<lambda>i. (i, 1)) columns) n_change rs)
         else if method_select = ''probabilistic'' then
           (case sample_without_replacement
                   (map (\<lambda>i. (i, gaussian_kernel
                                   (circular_distance (rz_non_cliff ! i)
                                      (closest_clifford (rz_non_cliff ! i)))
                                   sigma_select))
                      columns)
                   n_keep rs of
              (kept, rs') \<Rightarrow> Inr (filter (\<lambda>i. i \<notin> set kept) columns, rs'))
         else Inl (ConfigurationError method_select))"

text \<open>
  Modelled from the spec: the circuit of the external library, "a sequence of gate
  operations over qubits": a Z rotation with its angle and qubit, or any other gate with
  its name and qubits.
\<close>

datatype gate = Rz real int | Gate string "int list"

type_synonym circuit = "gate list"

fun gate_qubits :: "gate \<Rightarrow> int list" where
  "gate_qubits (Rz ang q) = [q]"
| "gate_qubits (Gate name qs) = qs"

fun get_argument :: "gate \<Rightarrow> real" where
  "get_argument (Rz ang q) = ang"
| "get_argument (Gate name qs) = 0"

fun with_argument :: "real \<Rightarrow> gate \<Rightarrow> gate" where
  "with_argument ang (Rz old q) = Rz ang q"
| "with_argument ang (Gate name qs) = Gate name qs"

fun is_non_clifford :: "real \<Rightarrow> gate \<Rightarrow> bool" where
  "is_non_clifford tol (Rz ang q) = (\<not> is_clifford_angle tol ang)"
| "is_non_clifford tol (Gate name qs) = False"

text \<open>
  Modelled from the spec: \<^verbatim>\<open>count_non_cliffords(circuit)\<close>, the number of rotations of
  the circuit whose angle is not a Clifford angle, and \<^verbatim>\<open>circuit.all_qubits()\<close>.
\<close>

definition count_non_cliffords :: "real \<Rightarrow> circuit \<Rightarrow> nat" where
  "count_non_cliffords tol circuit = length (filter (is_non_clifford tol) circuit)"

definition all_qubits :: "circuit \<Rightarrow> int set" where
  "all_qubits circuit = set (concat (map gate_qubits circuit))"

text \<open>Modelled from the spec: the circuit with new angles at the given positions.\<close>

fun put_arguments :: "circuit \<Rightarrow> (nat \<times> real) list \<Rightarrow> circuit" where
  "put_arguments circuit [] = circuit"
| "put_arguments circuit ((i, ang) # rest) =
     put_arguments (circuit[i := with_argument ang (circuit ! i)]) rest"

text \<open>
  Modelled from the spec: \<^verbatim>\<open>_map_to_near_clifford\<close>, one training circuit. "Select which
  indices keep their original (non-Clifford) angle and replace the rest with a Clifford
  angle": the non-Clifford rotations of the circuit are found, \<^verbatim>\<open>_select\<close> chooses which of
  them to change, \<^verbatim>\<open>_replace\<close> gives their new angles, and the result is the circuit with
  those angles in place.
\<close>

definition map_to_near_clifford ::
  "real \<Rightarrow> circuit \<Rightarrow> real \<Rightarrow> string \<Rightarrow> string \<Rightarrow> real \<Rightarrow> real \<Rightarrow> random_state \<Rightarrow>
     error + (circuit \<times> random_state)" where
  "map_to_near_clifford tol circuit fraction_non_clifford method_select method_replace
       sigma_select sigma_replace rs =
     (let positions = filter (\<lambda>i. is_non_clifford tol (circuit ! i)) [0..<length circuit];
          rz_non_cliff = map (\<lambda>i. get_argument (circuit ! i)) positions
      in case select rz_non_cliff fraction_non_clifford method_select sigma_select rs of
           Inl e \<Rightarrow> Inl e
         | Inr (columns_to_change, rs1) \<Rightarrow>
             (case replace (map (\<lambda>k. rz_non_cliff ! k) columns_to_change) method_replace
                     sigma_select sigma_replace rs1 of
                Inl e \<Rightarrow> Inl e
              | Inr (rz_replaced, rs2) \<Rightarrow>
                  Inr (put_arguments circuit
                         (zip (map (\<lambda>k. positions ! k) columns_to_change) rz_replaced), rs2)))"

text \<open>
  Modelled from the spec: \<^verbatim>\<open>generate_training_circuits(circuit, num_training_circuits,
  fraction_non_clifford, method_select, method_replace, random_state, ...)\<close>. "Given a
  circuit, produce \<open>n\<close> variant circuits": one after the other from the same random state.
\<close>

fun generate_loop ::
  "nat \<Rightarrow> (random_state \<Rightarrow> error + (circuit \<times> random_state)) \<Rightarrow> random_state \<Rightarrow>
     error + (circuit list \<times> random_state)" where
  "generate_loop 0 gen rs = Inr ([], rs)"
| "generate_loop (Suc n) gen rs =
     (case gen rs of
        Inl e \<Rightarrow> Inl e
      | Inr (c, rs1) \<Rightarrow>
          (case generate_loop n gen rs1 of
             Inl e \<Rightarrow> Inl e
           | Inr (cs, rs2) \<Rightarrow> Inr (c # cs, rs2)))"

definition generate_training_circuits ::
  "real \<Rightarrow> circuit \<Rightarrow> nat \<Rightarrow> real \<Rightarrow> string \<Rightarrow> string \<Rightarrow> real \<Rightarrow> real \<Rightarrow> random_state \<Rightarrow>
     error + (circuit list \<times> random_state)" where
  "generate_training_circuits tol circuit num_training_circuits fraction_non_clifford
       method_select method_replace sigma_select sigma_replace rs =
     generate_loop num_training_circuits
       (map_to_near_clifford tol circuit fraction_non_clifford method_select method_replace
          sigma_select sigma_replace) rs"

text \<open>
  Example inputs: a random state whose variates are all \<open>1/2\<close>, and a circuit of two
  non-Clifford rotations around a two-qubit gate.
\<close>

definition ex_rs :: random_state where
  "ex_rs = RandomState (\<lambda>k. 1 / 2) 0"

definition ex_circuit :: circuit where
  "ex_circuit = [Rz (1 / 2) 0, Gate ''CNOT'' [0, 1], Rz (1 / 4) 1]"

section \<open>Greedy first-fit grouping, as the specification words it\<close>

text \<open>
  "Initialize an empty list of groups. For each term, attempt to place it in the first
  existing group where it is pairwise-compatible with every member; if none found, start a
  new group. Returns the groups as a set of frozensets."
\<close>

fun first_index :: "('a \<Rightarrow> bool) \<Rightarrow> 'a list \<Rightarrow> nat option" where
  "first_index P [] = None"
| "first_index P (x # xs) = (if P x then Some 0 else map_option Suc (first_index P xs))"

definition fits :: "('p \<Rightarrow> 'p \<Rightarrow> bool) \<Rightarrow> 'p \<Rightarrow> 'p list \<Rightarrow> bool" where
  "fits cmw t g \<longleftrightarrow> (\<forall>m \<in> set g. cmw t m)"

definition place_first_fit :: "('p \<Rightarrow> 'p \<Rightarrow> bool) \<Rightarrow> 'p list list \<Rightarrow> 'p \<Rightarrow> 'p list list" where
  "place_first_fit cmw groups t =
     (case first_index (fits cmw t) groups of
        Some i \<Rightarrow> groups[i := groups ! i @ [t]]
      | None \<Rightarrow> groups @ [[t]])"

definition greedy_first_fit :: "('p \<Rightarrow> 'p \<Rightarrow> bool) \<Rightarrow> 'p list \<Rightarrow> 'p set set" where
  "greedy_first_fit cmw terms = set (map set (foldl (place_first_fit cmw) [] terms))"

section \<open>Auxiliary notions of the proofs\<close>

text \<open>
  A group is built by appending, so within a group every term is compatible with each term
  before it: the group is \<open>sorted_wrt\<close> the converse of the test.
\<close>

definition plists_ok :: "('p \<Rightarrow> 'p \<Rightarrow> bool) \<Rightarrow> 'p list list \<Rightarrow> bool" where
  "plists_ok cmw plists \<longleftrightarrow>
     distinct (concat plists) \<and> [] \<notin> set plists \<and>
     list_all (sorted_wrt (\<lambda>a b. cmw b a)) plists"

text \<open>A matrix with \<open>n\<close> rows of \<open>n\<close> entries, and the one with given entries.\<close>

definition square :: "nat \<Rightarrow> 'c matrix \<Rightarrow> bool" where
  "square n m \<longleftrightarrow> length m = n \<and> list_all (\<lambda>row. length row = n) m"

definition mat_of :: "nat \<Rightarrow> (nat \<Rightarrow> nat \<Rightarrow> 'c) \<Rightarrow> 'c matrix" where
  "mat_of n f = map (\<lambda>i. map (\<lambda>j. f i j) [0..<n]) [0..<n]"

text \<open>
  The entry of an array after the loop of \<^verbatim>\<open>matrix\<close>: starting from the dtype's zero,
  the converted entry of each term's matrix is added, term after term in the order of the
  list \<open>ps\<close>, with the dtype's addition.
\<close>

definition accumulated ::
  "'c dtype \<Rightarrow> int list \<Rightarrow> PauliString list \<Rightarrow> nat \<Rightarrow> nat \<Rightarrow> 'c" where
  "accumulated dtype qs ps i j =
     foldl (dt_add dtype) (dt_zero dtype)
       (map (\<lambda>p. dt_astype dtype (PauliString_matrix p qs ! i ! j)) ps)"

text \<open>The finite value of \<^verbatim>\<open>np.complex128\<close> with a given real part and no imaginary part.\<close>

definition c128 :: "real \<Rightarrow> complex128" where
  "c128 x = Complex128 (Finite x) (Finite 0)"

text \<open>
  Example terms: \<open>X\<close> on qubit 0, \<open>Z\<close> on qubit 1, \<open>Z\<close> on qubit 0, \<open>X\<close> on qubit 1.
  The first two are compatible, the second and the third are, the first and the third are
  not.
\<close>

definition ex_X0 :: PauliString where "ex_X0 = \<lparr>coeff = 1, ops = [(0, Pauli_X)]\<rparr>"
definition ex_Z1 :: PauliString where "ex_Z1 = \<lparr>coeff = 1, ops = [(1, Pauli_Z)]\<rparr>"
definition ex_Z0 :: PauliString where "ex_Z0 = \<lparr>coeff = 1, ops = [(0, Pauli_Z)]\<rparr>"
definition ex_X1 :: PauliString where "ex_X1 = \<lparr>coeff = 1, ops = [(1, Pauli_X)]\<rparr>"

text \<open>
  Two iteration orders of the set of \<open>X0, Z1, Z0\<close>: the first iterates \<open>X0, Z1, Z0\<close>, the
  second \<open>Z1, Z0, X0\<close>.
\<close>

definition ex_order_a :: "PauliString \<Rightarrow> nat" where
  "ex_order_a p = (if p = ex_X0 then 0 else if p = ex_Z1 then 1 else 2)"

definition ex_order_b :: "PauliString \<Rightarrow> nat" where
  "ex_order_b p = (if p = ex_Z1 then 0 else if p = ex_Z0 then 1 else 2)"

text \<open>
  Terms on the qubits 5 and 2, and a term with the coefficient \<open>2 ^ - 53\<close>, half of the
  distance from 1 to the next binary64 number.
\<close>

definition ex_X5 :: PauliString where "ex_X5 = \<lparr>coeff = 1, ops = [(5, Pauli_X)]\<rparr>"
definition ex_Z2 :: PauliString where "ex_Z2 = \<lparr>coeff = 1, ops = [(2, Pauli_Z)]\<rparr>"
definition ex_tiny_Z1 :: PauliString where
  "ex_tiny_Z1 = \<lparr>coeff = 1 / 2 ^ 53, ops = [(1, Pauli_Z)]\<rparr>"



text \<open>
  The circular distance from \<open>c + e\<close> to \<open>c + k * \<pi>/2\<close> for \<open>|e| \<le> \<pi>/4\<close> and \<open>|k| \<le> 3\<close>.
\<close>

definition quarter_dist :: "real \<Rightarrow> int \<Rightarrow> real" where
  "quarter_dist e k =
     (if k = 0 then \<bar>e\<bar> else if k = 1 \<or> k = -3 then pi / 2 - e
      else if k = -1 \<or> k = 3 then pi / 2 + e else pi - \<bar>e\<bar>)"

section \<open>Properties of the model of Pauli strings and sets\<close>

lemma can_be_measured_with_iff:
  "can_be_measured_with p r \<longleftrightarrow>
     (\<forall>q. pauli_at p q = Pauli_I \<or> pauli_at r q = Pauli_I \<or> pauli_at p q = pauli_at r q)"
proof -
  have "pauli_at p q = Pauli_I" if "q \<notin> set (PauliString_qubits p)" for q
  proof -
    from that have "map_of (ops p) q = None"
      by (simp add: PauliString_qubits_def map_of_eq_None_iff)
    then show ?thesis by (simp add: pauli_at_def)
  qed
  then show ?thesis
    unfolding can_be_measured_with_def list_all_iff by blast
qed

lemma can_be_measured_with_sym:
  "can_be_measured_with p r \<Longrightarrow> can_be_measured_with r p"
  unfolding can_be_measured_with_iff by metis

lemma can_be_measured_with_refl: "can_be_measured_with p p"
  unfolding can_be_measured_with_iff by simp

lemma distinct_py_set: "distinct (py_set hash xs)"
  by (simp add: py_set_def)

lemma set_py_set: "set (py_set hash xs) = set xs"
  by (simp add: py_set_def)

lemma filter_key_singleton:
  "distinct xs \<Longrightarrow> k \<in> set xs \<Longrightarrow> inj_on f (set xs) \<Longrightarrow> filter (\<lambda>x. f k = f x) xs = [k]"
proof (induction xs)
  case Nil
  then show ?case by simp
next
  case (Cons a xs)
  show ?case
  proof (cases "a = k")
    case True
    with Cons.prems have "\<forall>x \<in> set xs. f k \<noteq> f x"
      by (auto simp: inj_on_def)
    then have "filter (\<lambda>x. f k = f x) xs = []" by (simp add: filter_empty_conv)
    with True show ?thesis by simp
  next
    case False
    with Cons.prems have "k \<in> set xs" "f k \<noteq> f a" "distinct xs" "inj_on f (set xs)"
      by (auto simp: inj_on_def)
    with Cons.IH show ?thesis by simp
  qed
qed

text \<open>
  Every arrangement of the terms is the iteration order under some key function, so what
  holds for every \<open>hash\<close> holds for every iteration order of the set.
\<close>

lemma py_set_any_order:
  assumes "distinct ys" and "set ys = set xs"
  shows "\<exists>hash. py_set hash xs = ys"
proof -
  define h where "h x = (case map_of (zip ys [0..<length ys]) x of Some i \<Rightarrow> i | None \<Rightarrow> 0)" for x
  let ?zs = "rev (remdups (rev xs))"
  have hn: "h (ys ! i) = i" if "i < length ys" for i
    using map_of_zip_nth [of ys "[0..<length ys]" i] assms(1) that by (simp add: h_def)
  have "map h ys = [0..<length ys]"
    by (rule nth_equalityI) (simp_all add: hn)
  then have sorted: "sorted (map h ys)" by simp
  have inj: "inj_on h (set ys)"
    by (auto simp: inj_on_def in_set_conv_nth hn)
  have dz: "distinct ?zs" and sz: "set ?zs = set ys" using assms(2) by simp_all
  then have m: "mset ys = mset ?zs"
    using assms(1) by (metis set_eq_iff_mset_eq_distinct)
  have "sort_key h ?zs = ys"
  proof (rule properties_for_sort_key [OF m _ sorted])
    fix k assume k: "k \<in> set ys"
    have "filter (\<lambda>x. h k = h x) ys = [k]"
      using assms(1) k inj by (rule filter_key_singleton)
    moreover have "filter (\<lambda>x. h k = h x) ?zs = [k]"
      using dz k inj unfolding sz [symmetric] by (rule filter_key_singleton)
    ultimately show "filter (\<lambda>x. h k = h x) ys = filter (\<lambda>x. h k = h x) ?zs" by simp
  qed
  then show ?thesis unfolding py_set_def by blast
qed

lemma o_paulis_init: "o_paulis (Observable_init hash paulis) = py_set hash paulis"
  by (simp add: Observable_init_def Let_def)

section \<open>The greedy loop keeps a partition into compatible groups\<close>

lemma plists_add_set:
  "plists_add cmw x plists = (plists', added) \<Longrightarrow>
     set (concat plists') = (if added then insert x (set (concat plists)) else set (concat plists))"
proof (induction plists arbitrary: plists' added)
  case Nil
  then show ?case by auto
next
  case (Cons g rest)
  show ?case
  proof (cases "list_all (cmw x) g")
    case True
    with Cons.prems show ?thesis by auto
  next
    case False
    obtain rest' a where r: "plists_add cmw x rest = (rest', a)"
      by (cases "plists_add cmw x rest")
    with False Cons.prems have eq: "plists' = g # rest'" "added = a" by auto
    from Cons.IH [OF r] show ?thesis unfolding eq by (cases a) auto
  qed
qed

lemma plists_add_not_added:
  "plists_add cmw x plists = (plists', False) \<Longrightarrow> plists' = plists"
  by (induction plists arbitrary: plists') (auto split: if_splits prod.splits)

lemma plists_add_ok:
  "plists_ok cmw plists \<Longrightarrow> x \<notin> set (concat plists) \<Longrightarrow>
   plists_add cmw x plists = (plists', added) \<Longrightarrow> plists_ok cmw plists'"
proof (induction plists arbitrary: plists' added)
  case Nil
  then show ?case by (simp add: plists_ok_def)
next
  case (Cons g rest)
  show ?case
  proof (cases "list_all (cmw x) g")
    case True
    with Cons.prems show ?thesis
      by (auto simp: plists_ok_def sorted_wrt_append list_all_iff)
  next
    case False
    obtain rest' a where r: "plists_add cmw x rest = (rest', a)"
      by (cases "plists_add cmw x rest")
    from Cons.prems have ok: "plists_ok cmw rest" and nx: "x \<notin> set (concat rest)"
      by (auto simp: plists_ok_def)
    from Cons.IH [OF ok nx r] have ok': "plists_ok cmw rest'" .
    from plists_add_set [OF r] nx
    have sub: "set (concat rest') \<subseteq> insert x (set (concat rest))"
      by (auto split: if_splits)
    from False r Cons.prems have eq: "plists' = g # rest'" by simp
    from Cons.prems have "distinct g" "g \<noteq> []" "sorted_wrt (\<lambda>a b. cmw b a) g"
      "set g \<inter> set (concat rest) = {}" "x \<notin> set g"
      by (auto simp: plists_ok_def)
    with ok' sub show ?thesis
      unfolding eq plists_ok_def by auto
  qed
qed

lemma plists_ok_snoc:
  "plists_ok cmw plists \<Longrightarrow> x \<notin> set (concat plists) \<Longrightarrow> plists_ok cmw (plists @ [[x]])"
  by (auto simp: plists_ok_def)

lemma partition_loop_ok:
  "plists_ok cmw plists \<Longrightarrow> distinct paulis \<Longrightarrow> set paulis \<inter> set (concat plists) = {} \<Longrightarrow>
   plists_ok cmw (partition_loop cmw paulis plists)"
proof (induction paulis arbitrary: plists)
  case Nil
  then show ?case by simp
next
  case (Cons x xs)
  obtain plists' added where r: "plists_add cmw x plists = (plists', added)"
    by (cases "plists_add cmw x plists")
  let ?next = "if added then plists' else plists' @ [[x]]"
  from Cons.prems have nx: "x \<notin> set (concat plists)" by auto
  have ok: "plists_ok cmw ?next"
  proof (cases added)
    case True
    with plists_add_ok [OF Cons.prems(1) nx r] show ?thesis by simp
  next
    case False
    with r have "plists' = plists" by (simp add: plists_add_not_added)
    with False plists_ok_snoc [OF Cons.prems(1) nx] show ?thesis by simp
  qed
  have s: "set (concat ?next) = insert x (set (concat plists))"
    using plists_add_set [OF r] by (cases added) auto
  from Cons.prems have "distinct xs" "set xs \<inter> set (concat ?next) = {}"
    unfolding s by auto
  with Cons.IH [OF ok] r show ?case by simp
qed

lemma partition_loop_set:
  "set (concat (partition_loop cmw paulis plists)) = set paulis \<union> set (concat plists)"
proof (induction paulis arbitrary: plists)
  case Nil
  then show ?case by simp
next
  case (Cons x xs)
  obtain plists' added where r: "plists_add cmw x plists = (plists', added)"
    by (cases "plists_add cmw x plists")
  have "set (concat (if added then plists' else plists' @ [[x]])) = insert x (set (concat plists))"
    using plists_add_set [OF r] by (cases added) auto
  with Cons.IH r show ?case by simp
qed

lemma sorted_wrt_pairwise:
  assumes "sorted_wrt (\<lambda>a b. cmw b a) g" and "\<And>a b. cmw a b \<Longrightarrow> cmw b a"
    and "s \<in> set g" and "t \<in> set g" and "s \<noteq> t"
  shows "cmw s t"
proof -
  from assms(3,4) obtain i j where ij: "i < length g" "j < length g" "g ! i = s" "g ! j = t"
    by (auto simp: in_set_conv_nth)
  with assms(5) have "i \<noteq> j" by auto
  then consider "i < j" | "j < i" by linarith
  then show ?thesis
  proof cases
    case 1
    with assms(1) ij have "cmw t s" by (auto simp: sorted_wrt_iff_nth_less)
    then show ?thesis by (rule assms(2))
  next
    case 2
    with assms(1) ij show ?thesis by (auto simp: sorted_wrt_iff_nth_less)
  qed
qed

lemma plists_ok_unique_group:
  assumes "plists_ok cmw plists" and "g \<in> set plists" and "g' \<in> set plists"
    and "t \<in> set g" and "t \<in> set g'"
  shows "g = g'"
proof (rule ccontr)
  assume "g \<noteq> g'"
  with assms(1-3) have "set g \<inter> set g' = {}"
    by (simp add: plists_ok_def distinct_concat_iff)
  with assms(4,5) show False by auto
qed


section \<open>partition returns a partition into compatible groups\<close>

lemma partition_loop_groups:
  assumes "distinct paulis"
  shows "plists_ok cmw (partition_loop cmw paulis [])"
    and "set (concat (partition_loop cmw paulis [])) = set paulis"
  using partition_loop_ok [of cmw "[]" paulis] assms partition_loop_set [of cmw paulis "[]"]
  by (simp_all add: plists_ok_def)

lemmas ex_defs =
  ex_X0_def ex_Z1_def ex_Z0_def can_be_measured_with_def pauli_at_def PauliString_qubits_def

lemma ex_iteration_orders:
  "py_set ex_order_a [ex_X0, ex_Z1, ex_Z0] = [ex_X0, ex_Z1, ex_Z0]"
  "py_set ex_order_b [ex_X0, ex_Z1, ex_Z0] = [ex_Z1, ex_Z0, ex_X0]"
  "py_set ex_order_a [ex_Z1, ex_Z0, ex_X0] = [ex_X0, ex_Z1, ex_Z0]"
  "py_set ex_order_b [ex_Z1, ex_Z0, ex_X0] = [ex_Z1, ex_Z0, ex_X0]"
  "py_set ex_order_b [ex_X0, ex_Z1, ex_Z0, ex_X0] = [ex_Z1, ex_Z0, ex_X0]"
  by (simp_all add: py_set_def ex_order_a_def ex_order_b_def ex_X0_def ex_Z1_def ex_Z0_def)

lemma ex_partition_loop:
  "partition_loop can_be_measured_with [ex_X0, ex_Z1, ex_Z0] [] = [[ex_X0, ex_Z1], [ex_Z0]]"
  "partition_loop can_be_measured_with [ex_Z1, ex_Z0, ex_X0] [] = [[ex_Z1, ex_Z0], [ex_X0]]"
  by (simp_all add: ex_defs)

lemma ex_groups_differ: "{{ex_X0, ex_Z1}, {ex_Z0}} \<noteq> {{ex_Z1, ex_Z0}, {ex_X0}}"
proof -
  have "{ex_X0} \<notin> {{ex_X0, ex_Z1}, {ex_Z0}}"
    by (auto simp: ex_X0_def ex_Z1_def ex_Z0_def)
  then show ?thesis by blast
qed

lemma ex_partition:
  "Observable_partition ex_order_a (Observable_init ex_order_b [ex_X0, ex_Z1, ex_Z0]) =
     {{ex_X0, ex_Z1}, {ex_Z0}}"
  "Observable_partition ex_order_a (Observable_init ex_order_a [ex_X0, ex_Z1, ex_Z0]) =
     {{ex_X0, ex_Z1}, {ex_Z0}}"
  "Observable_partition ex_order_b (Observable_init ex_order_b [ex_X0, ex_Z1, ex_Z0]) =
     {{ex_Z1, ex_Z0}, {ex_X0}}"
  "Observable_partition ex_order_a (Observable_init ex_order_b [ex_X0, ex_Z1, ex_Z0, ex_X0]) =
     {{ex_X0, ex_Z1}, {ex_Z0}}"
  unfolding Observable_partition_def deepcopy_set_def o_paulis_init ex_iteration_orders Let_def
    ex_partition_loop
  by simp_all

text \<open>
  Claim C1. For an Observable built from any terms, under any iteration order of its set
  and any order in which the deep copy is popped: any two terms of one group returned by
  \<^verbatim>\<open>partition()\<close> can be measured with each other, the union of the groups is the set of
  terms, and every term lies in exactly one group.
\<close>

theorem partition_valid:
  "(\<forall>g \<in> Observable_partition copy_hash (Observable_init hash paulis).
      \<forall>s \<in> g. \<forall>t \<in> g. can_be_measured_with s t) \<and>
   \<Union> (Observable_partition copy_hash (Observable_init hash paulis)) = set paulis \<and>
   (\<forall>t \<in> set paulis.
      \<exists>!g. g \<in> Observable_partition copy_hash (Observable_init hash paulis) \<and> t \<in> g)"
proof -
  let ?ps = "py_set copy_hash (py_set hash paulis)"
  let ?pl = "partition_loop can_be_measured_with ?ps []"
  have P: "Observable_partition copy_hash (Observable_init hash paulis) = set (map set ?pl)"
    by (simp add: Observable_partition_def deepcopy_set_def o_paulis_init)
  have ok: "plists_ok can_be_measured_with ?pl" and un: "set (concat ?pl) = set paulis"
    using partition_loop_groups
      [OF distinct_py_set, of can_be_measured_with copy_hash "py_set hash paulis"]
    by (simp_all add: set_py_set)
  have compat: "can_be_measured_with s t" if "g \<in> set ?pl" "s \<in> set g" "t \<in> set g" for g s t
  proof (cases "s = t")
    case True
    then show ?thesis by (simp add: can_be_measured_with_refl)
  next
    case False
    from ok that(1) have "sorted_wrt (\<lambda>a b. can_be_measured_with b a) g"
      by (simp add: plists_ok_def list_all_iff)
    then show ?thesis
      using can_be_measured_with_sym that(2,3) False by (rule sorted_wrt_pairwise)
  qed
  have union: "\<Union> (set (map set ?pl)) = set paulis"
    using un by simp
  have uniq: "\<exists>!G. G \<in> set (map set ?pl) \<and> t \<in> G" if "t \<in> set paulis" for t
  proof -
    from that un obtain g where g: "g \<in> set ?pl" "t \<in> set g" by auto
    show ?thesis
    proof (rule ex1I [of _ "set g"])
      show "set g \<in> set (map set ?pl) \<and> t \<in> set g" using g by simp
    next
      fix G assume "G \<in> set (map set ?pl) \<and> t \<in> G"
      then obtain g' where g': "g' \<in> set ?pl" "G = set g'" "t \<in> set g'" by auto
      from plists_ok_unique_group [OF ok g'(1) g(1) g'(3) g(2)] g'(2)
      show "G = set g" by simp
    qed
  qed
  show ?thesis
    unfolding P using compat union uniq by auto
qed

text \<open>
  The theorem at the terms \<open>X0, Z1, Z0\<close> (with \<open>X0\<close> given twice), in a set that iterates
  \<open>Z1, Z0, X0\<close> and whose deep copy is popped as \<open>X0, Z1, Z0\<close>: the groups are \<open>{X0, Z1}\<close>
  and \<open>{Z0}\<close>.
\<close>

theorem partition_valid_witness:
  "{ex_X0, ex_Z1} \<in>
     Observable_partition ex_order_a (Observable_init ex_order_b [ex_X0, ex_Z1, ex_Z0, ex_X0]) \<and>
   can_be_measured_with ex_X0 ex_Z1 \<and>
   \<Union> (Observable_partition ex_order_a (Observable_init ex_order_b [ex_X0, ex_Z1, ex_Z0, ex_X0])) =
     {ex_X0, ex_Z1, ex_Z0} \<and>
   (\<exists>!g. g \<in> Observable_partition ex_order_a
              (Observable_init ex_order_b [ex_X0, ex_Z1, ex_Z0, ex_X0]) \<and>
      ex_Z0 \<in> g)"
proof -
  let ?G = "Observable_partition ex_order_a
    (Observable_init ex_order_b [ex_X0, ex_Z1, ex_Z0, ex_X0])"
  have mem: "{ex_X0, ex_Z1} \<in> ?G"
    by (simp add: ex_partition)
  note pv = partition_valid [of ex_order_a ex_order_b "[ex_X0, ex_Z1, ex_Z0, ex_X0]"]
  from pv mem have "can_be_measured_with ex_X0 ex_Z1" by blast
  moreover from pv have "\<Union> ?G = {ex_X0, ex_Z1, ex_Z0}" by auto
  moreover from pv have "\<exists>!g. g \<in> ?G \<and> ex_Z0 \<in> g" by simp
  ultimately show ?thesis using mem by blast
qed

section \<open>partition is greedy first-fit grouping in the order of the deep copy\<close>

lemma plists_add_first_index:
  "plists_add cmw t groups =
     (case first_index (fits cmw t) groups of
        Some i \<Rightarrow> (groups[i := groups ! i @ [t]], True)
      | None \<Rightarrow> (groups, False))"
  by (induction groups) (auto simp: fits_def list_all_iff split: option.splits)

lemma partition_loop_foldl:
  "partition_loop cmw paulis plists = foldl (place_first_fit cmw) plists paulis"
proof (induction paulis arbitrary: plists)
  case Nil
  show ?case by simp
next
  case (Cons x xs)
  show ?case
    by (simp add: Cons.IH plists_add_first_index place_first_fit_def split: option.splits)
qed

lemma ex_first_fit:
  "greedy_first_fit can_be_measured_with [ex_X0, ex_Z1, ex_Z0] = {{ex_X0, ex_Z1}, {ex_Z0}}"
  "greedy_first_fit can_be_measured_with [ex_Z1, ex_Z0, ex_X0] = {{ex_Z1, ex_Z0}, {ex_X0}}"
  by (simp_all add: greedy_first_fit_def place_first_fit_def fits_def ex_defs)

text \<open>
  The grouping is not first-fit in the iteration order of the Observable's own set. The
  set of the Observable of \<open>X0, Z1, Z0\<close> iterates \<open>Z1, Z0, X0\<close>, and first-fit in that
  order puts \<open>Z1\<close> and \<open>Z0\<close> together; its deep copy is popped as \<open>X0, Z1, Z0\<close>, and
  \<^verbatim>\<open>partition()\<close> puts \<open>X0\<close> and \<open>Z1\<close> together.
\<close>

theorem partition_not_first_fit_in_set_order:
  "o_paulis (Observable_init ex_order_b [ex_X0, ex_Z1, ex_Z0]) = [ex_Z1, ex_Z0, ex_X0] \<and>
   Observable_partition ex_order_a (Observable_init ex_order_b [ex_X0, ex_Z1, ex_Z0]) =
     {{ex_X0, ex_Z1}, {ex_Z0}} \<and>
   greedy_first_fit can_be_measured_with
       (o_paulis (Observable_init ex_order_b [ex_X0, ex_Z1, ex_Z0])) =
     {{ex_Z1, ex_Z0}, {ex_X0}} \<and>
   Observable_partition ex_order_a (Observable_init ex_order_b [ex_X0, ex_Z1, ex_Z0]) \<noteq>
     greedy_first_fit can_be_measured_with
       (o_paulis (Observable_init ex_order_b [ex_X0, ex_Z1, ex_Z0]))"
  using ex_groups_differ
  by (simp add: o_paulis_init ex_iteration_orders ex_first_fit ex_partition)

text \<open>
  Claim C2. \<^verbatim>\<open>partition()\<close> is greedy first-fit grouping of the terms in the order in
  which \<^verbatim>\<open>pop\<close> empties the deep copy of the term set: what the loops of the code return
  is what the grouping worded by the specification returns on that order. The deep copy
  holds the terms of the Observable, each once; its order is its own.
\<close>

theorem partition_first_fit_in_pop_order:
  "Observable_partition copy_hash self =
     greedy_first_fit can_be_measured_with (deepcopy_set copy_hash (o_paulis self)) \<and>
   distinct (deepcopy_set copy_hash (o_paulis self)) \<and>
   set (deepcopy_set copy_hash (o_paulis self)) = set (o_paulis self)"
  by (simp add: Observable_partition_def greedy_first_fit_def partition_loop_foldl
      deepcopy_set_def distinct_py_set set_py_set)

text \<open>
  The theorem at the Observable of \<open>X0, Z1, Z0\<close> whose set iterates \<open>Z1, Z0, X0\<close> and whose
  deep copy is popped as \<open>X0, Z1, Z0\<close>.
\<close>

theorem partition_first_fit_in_pop_order_witness:
  "deepcopy_set ex_order_a (o_paulis (Observable_init ex_order_b [ex_X0, ex_Z1, ex_Z0])) =
     [ex_X0, ex_Z1, ex_Z0] \<and>
   Observable_partition ex_order_a (Observable_init ex_order_b [ex_X0, ex_Z1, ex_Z0]) =
     {{ex_X0, ex_Z1}, {ex_Z0}}"
  using partition_first_fit_in_pop_order
    [of ex_order_a "Observable_init ex_order_b [ex_X0, ex_Z1, ex_Z0]"]
  by (simp add: deepcopy_set_def o_paulis_init ex_iteration_orders ex_first_fit)

section \<open>nterms and qubit_indices\<close>


text \<open>
  \<^verbatim>\<open>qubit_indices\<close> is ascending, without repetition, and lists exactly the qubits the
  terms act on; \<^verbatim>\<open>nqubits\<close> is their number.
\<close>

lemma qubit_indices_of_init:
  "sorted (Observable_qubit_indices (Observable_init hash paulis)) \<and>
   distinct (Observable_qubit_indices (Observable_init hash paulis)) \<and>
   set (Observable_qubit_indices (Observable_init hash paulis)) =
     (\<Union>p \<in> set paulis. set (PauliString_qubits p)) \<and>
   Observable_nqubits (Observable_init hash paulis) =
     card (\<Union>p \<in> set paulis. set (PauliString_qubits p))"
proof -
  let ?Q = "\<Union>p \<in> set paulis. set (PauliString_qubits p)"
  have Q: "Observable_qubits (Observable_init hash paulis) = ?Q"
    by (simp add: Observable_qubits_def o_paulis_init set_py_set)
  have "finite ?Q" by simp
  then have "length (sorted_list_of_set ?Q) = card ?Q" by simp
  then show ?thesis
    unfolding Observable_nqubits_def Observable_qubit_indices_def Q by simp
qed

section \<open>matrix accumulates the terms' matrices\<close>

lemma square_mat_of: "square n (mat_of n f)"
  by (simp add: square_def mat_of_def list_all_iff)

lemma square_eq_mat_of: "square n m \<Longrightarrow> m = mat_of n (\<lambda>i j. m ! i ! j)"
  by (auto simp: square_def mat_of_def list_all_iff intro!: nth_equalityI)

lemma mat_of_nth: "i < n \<Longrightarrow> j < n \<Longrightarrow> mat_of n f ! i ! j = f i j"
  by (simp add: mat_of_def)

lemma length_concat_const:
  "(\<And>x. x \<in> set xss \<Longrightarrow> length x = k) \<Longrightarrow> length (concat xss) = length xss * k"
  by (induction xss) auto

lemma square_kron:
  assumes "square m a" and "square n b"
  shows "square (m * n) (kron a b)"
proof -
  have rows: "length (concat (map (\<lambda>x. map (\<lambda>y. x * y) rb) ra)) = m * n"
    if "length ra = m" "length rb = n" for ra rb :: "complex list"
    using that by (subst length_concat_const [where k = n]) auto
  have "length (kron a b) = m * n"
    unfolding kron_def using assms
    by (subst length_concat_const [where k = n]) (auto simp: square_def)
  moreover have "list_all (\<lambda>row. length row = m * n) (kron a b)"
    unfolding kron_def using assms rows
    by (auto simp: square_def list_all_iff)
  ultimately show ?thesis by (simp add: square_def)
qed

lemma square_pauli_matrix: "square 2 (pauli_matrix g)"
  by (cases g) (simp_all add: square_def)

lemma square_PauliString_matrix: "square (2 ^ length qs) (PauliString_matrix p qs)"
proof -
  have "square (2 ^ length qs) (foldr (\<lambda>q m. kron (pauli_matrix (pauli_at p q)) m) qs [[1]])"
  proof (induction qs)
    case Nil
    show ?case by (simp add: square_def)
  next
    case (Cons q qs)
    from square_kron [OF square_pauli_matrix Cons] show ?case by simp
  qed
  then show ?thesis
    by (simp add: PauliString_matrix_def square_def list_all_iff)
qed

lemma mat_iadd_mat_of:
  "mat_iadd dtype (mat_of n f) (mat_of n g) = Inr (mat_of n (\<lambda>i j. dt_add dtype (f i j) (g i j)))"
  by (auto simp: mat_iadd_def mat_of_def comp_def intro!: nth_equalityI)

lemma astype_mat_of: "astype (mat_of n f) dtype = mat_of n (\<lambda>i j. dt_astype dtype (f i j))"
  by (simp add: astype_def mat_of_def comp_def)

text \<open>The loop never raises: every term's matrix has the shape of the accumulator.\<close>

lemma matrix_loop_acc:
  "matrix_loop dtype qs ps (mat_of (2 ^ length qs) f) =
     Inr (mat_of (2 ^ length qs)
       (\<lambda>i j. foldl (dt_add dtype) (f i j)
          (map (\<lambda>p. dt_astype dtype (PauliString_matrix p qs ! i ! j)) ps)))"
proof (induction ps arbitrary: f)
  case Nil
  show ?case by simp
next
  case (Cons p ps)
  have "PauliString_matrix p qs = mat_of (2 ^ length qs) (\<lambda>i j. PauliString_matrix p qs ! i ! j)"
    using square_PauliString_matrix by (rule square_eq_mat_of)
  then have "astype (PauliString_matrix p qs) dtype =
      mat_of (2 ^ length qs) (\<lambda>i j. dt_astype dtype (PauliString_matrix p qs ! i ! j))"
    using astype_mat_of [of "2 ^ length qs" "\<lambda>i j. PauliString_matrix p qs ! i ! j" dtype]
    by simp
  then have "mat_iadd dtype (mat_of (2 ^ length qs) f) (astype (PauliString_matrix p qs) dtype) =
      Inr (mat_of (2 ^ length qs)
        (\<lambda>i j. dt_add dtype (f i j) (dt_astype dtype (PauliString_matrix p qs ! i ! j))))"
    by (simp add: mat_iadd_mat_of)
  then show ?case
    by (simp add: Cons.IH)
qed

lemma zeros_mat_of: "zeros n n dtype = mat_of n (\<lambda>i j. dt_zero dtype)"
  by (auto simp: zeros_def mat_of_def intro!: nth_equalityI)

lemma Observable_matrix_mat_of:
  "Observable_matrix self dtype =
     Inr (mat_of (2 ^ Observable_nqubits self)
       (accumulated dtype (Observable_qubit_indices self) (o_paulis self)))"
proof -
  have n: "Observable_nqubits self = length (Observable_qubit_indices self)"
    by (simp add: Observable_nqubits_def)
  show ?thesis
    unfolding Observable_matrix_def Let_def n zeros_mat_of matrix_loop_acc accumulated_def
    by simp
qed

text \<open>In arithmetic without rounding the accumulated entry is the sum over the set of terms.\<close>

lemma foldl_add_sum_list: "foldl (\<lambda>a b. a + b) a xs = a + sum_list xs" for a :: complex
  by (induction xs arbitrary: a) (simp_all add: add.assoc)

lemma accumulated_exact:
  assumes "distinct ps"
  shows "accumulated exact_complex qs ps i j = (\<Sum>p \<in> set ps. PauliString_matrix p qs ! i ! j)"
  using sum.distinct_set_conv_list [OF assms, of "\<lambda>p. PauliString_matrix p qs ! i ! j"]
  by (simp add: accumulated_def exact_complex_def foldl_add_sum_list)

subsection \<open>Rounding in \<^verbatim>\<open>np.complex128\<close>\<close>

lemma floor_log2:
  assumes "0 < x" and "2 powr of_int k \<le> x" and "x < 2 powr of_int (k + 1)"
  shows "\<lfloor>log 2 x\<rfloor> = k"
proof -
  have "of_int k \<le> log 2 x" using assms(1,2) by (simp add: le_log_iff)
  moreover have "log 2 x < of_int (k + 1)" using assms(1,3) by (simp add: log_less_iff)
  ultimately show ?thesis by linarith
qed

lemma round_half_even_int: "round_half_even (of_int m) = m"
  by (simp add: round_half_even_def)

text \<open>A number with a 53-bit significand, in the range of the normal numbers, is a binary64.\<close>

lemma float64_round_exact:
  assumes x: "x = of_int m * 2 powr of_int e"
    and m: "2 ^ 52 \<le> \<bar>m\<bar>" "\<bar>m\<bar> < 2 ^ 53"
    and e: "- 1074 \<le> e" "e \<le> 971"
  shows "float64_round x = Finite x"
proof -
  have p: "(0::real) < 2 powr of_int e" by simp
  have ax: "\<bar>x\<bar> = of_int \<bar>m\<bar> * 2 powr of_int e" by (simp add: x abs_mult)
  have "m \<noteq> 0" using m by auto
  then have x0: "x \<noteq> 0" by (simp add: x)
  have lo: "2 powr of_int (e + 52) \<le> \<bar>x\<bar>"
  proof -
    have "(2::real) ^ 52 \<le> of_int \<bar>m\<bar>" using m(1) by (metis of_int_le_iff of_int_numeral of_int_power)
    then have "(2::real) ^ 52 * 2 powr of_int e \<le> of_int \<bar>m\<bar> * 2 powr of_int e"
      using p by (simp del: of_int_abs)
    then show ?thesis by (simp add: ax powr_add del: of_int_abs)
  qed
  have hi: "\<bar>x\<bar> < 2 powr of_int (e + 52 + 1)"
  proof -
    have "of_int \<bar>m\<bar> < (2::real) ^ 53" using m(2) by (metis of_int_less_iff of_int_numeral of_int_power)
    then have "of_int \<bar>m\<bar> * 2 powr of_int e < (2::real) ^ 53 * 2 powr of_int e"
      using p by (simp del: of_int_abs)
    then show ?thesis by (simp add: ax powr_add del: of_int_abs)
  qed
  have fl: "\<lfloor>log 2 \<bar>x\<bar>\<rfloor> = e + 52"
    using x0 lo hi by (intro floor_log2) simp_all
  have q: "x / 2 powr of_int e = of_int m" by (simp add: x)
  have small: "\<bar>x\<bar> < 2 ^ 1024"
  proof -
    have "(2::real) powr of_int (e + 52 + 1) \<le> 2 powr 1024"
      using e(2) by (intro powr_mono) simp_all
    also have "(2::real) powr 1024 = 2 ^ 1024" by simp
    finally show ?thesis using hi by linarith
  qed
  show ?thesis
    using x0 e(1) small
    by (simp add: float64_round_def fl Let_def q round_half_even_int max_def x [symmetric])
qed

lemma float64_round_tie:
  "float64_round (1 + 1 / 2 ^ 53) = Finite 1"
  "float64_round (- 1 - 1 / 2 ^ 53) = Finite (- 1)"
proof -
  have fl: "\<lfloor>log 2 \<bar>1 + 1 / 2 ^ 53 :: real\<bar>\<rfloor> = 0" "\<lfloor>log 2 \<bar>- 1 - 1 / 2 ^ 53 :: real\<bar>\<rfloor> = 0"
    by (rule floor_log2; simp)+
  have r: "round_half_even (9007199254740993 / 2) = 4503599627370496"
    "round_half_even (- (9007199254740993 / 2)) = - 4503599627370496"
    by (simp_all add: round_half_even_def Let_def)
  show "float64_round (1 + 1 / 2 ^ 53) = Finite 1"
    unfolding float64_round_def fl Let_def by (simp add: r powr_minus)
  show "float64_round (- 1 - 1 / 2 ^ 53) = Finite (- 1)"
    unfolding float64_round_def fl Let_def by (simp add: r powr_minus)
qed

lemma float64_round_values:
  "float64_round 0 = Finite 0"
  "float64_round 1 = Finite 1"
  "float64_round (- 1) = Finite (- 1)"
  "float64_round (1 / 2 ^ 53) = Finite (1 / 2 ^ 53)"
  "float64_round (- (1 / 2 ^ 53)) = Finite (- (1 / 2 ^ 53))"
  "float64_round (1 - 1 / 2 ^ 53) = Finite (1 - 1 / 2 ^ 53)"
  "float64_round (- 1 + 1 / 2 ^ 53) = Finite (- 1 + 1 / 2 ^ 53)"
proof -
  show "float64_round 0 = Finite 0" by (simp add: float64_round_def)
  show "float64_round 1 = Finite 1"
    by (rule float64_round_exact [where m = "2 ^ 52" and e = "- 52"]) (simp_all add: powr_minus)
  show "float64_round (- 1) = Finite (- 1)"
    by (rule float64_round_exact [where m = "- (2 ^ 52)" and e = "- 52"]) (simp_all add: powr_minus)
  show "float64_round (1 / 2 ^ 53) = Finite (1 / 2 ^ 53)"
    by (rule float64_round_exact [where m = "2 ^ 52" and e = "- 105"]) (simp_all add: powr_minus)
  show "float64_round (- (1 / 2 ^ 53)) = Finite (- (1 / 2 ^ 53))"
    by (rule float64_round_exact [where m = "- (2 ^ 52)" and e = "- 105"]) (simp_all add: powr_minus)
  show "float64_round (1 - 1 / 2 ^ 53) = Finite (1 - 1 / 2 ^ 53)"
    by (rule float64_round_exact [where m = "2 ^ 53 - 1" and e = "- 53"]) (simp_all add: powr_minus)
  show "float64_round (- 1 + 1 / 2 ^ 53) = Finite (- 1 + 1 / 2 ^ 53)"
    by (rule float64_round_exact [where m = "- (2 ^ 53 - 1)" and e = "- 53"]) (simp_all add: powr_minus)
qed

lemma ex_tiny_obs:
  "o_paulis (Observable_init (\<lambda>_. 0) [ex_Z0, ex_tiny_Z1]) = [ex_Z0, ex_tiny_Z1]"
  "Observable_qubit_indices (Observable_init (\<lambda>_. 0) [ex_Z0, ex_tiny_Z1]) = [0, 1]"
  "Observable_nqubits (Observable_init (\<lambda>_. 0) [ex_Z0, ex_tiny_Z1]) = 2"
proof -
  show 1: "o_paulis (Observable_init (\<lambda>_. 0) [ex_Z0, ex_tiny_Z1]) = [ex_Z0, ex_tiny_Z1]"
    by (simp add: o_paulis_init py_set_def ex_Z0_def ex_tiny_Z1_def)
  show 2: "Observable_qubit_indices (Observable_init (\<lambda>_. 0) [ex_Z0, ex_tiny_Z1]) = [0, 1]"
    unfolding Observable_qubit_indices_def Observable_qubits_def 1 sorted_list_of_set_sort_remdups
    by (simp add: ex_Z0_def ex_tiny_Z1_def PauliString_qubits_def)
  show "Observable_nqubits (Observable_init (\<lambda>_. 0) [ex_Z0, ex_tiny_Z1]) = 2"
    by (simp add: Observable_nqubits_def 2)
qed

lemma ex_tiny_matrices:
  "PauliString_matrix ex_Z0 [0, 1] =
     [[1, 0, 0, 0], [0, 1, 0, 0], [0, 0, - 1, 0], [0, 0, 0, - 1]]"
  "PauliString_matrix ex_tiny_Z1 [0, 1] =
     [[1 / 2 ^ 53, 0, 0, 0], [0, - (1 / 2 ^ 53), 0, 0],
      [0, 0, 1 / 2 ^ 53, 0], [0, 0, 0, - (1 / 2 ^ 53)]]"
  by (simp_all add: PauliString_matrix_def kron_def pauli_at_def ex_Z0_def ex_tiny_Z1_def)

lemma upt_4: "[0..<4] = [0, 1, 2, 3]"
  by (simp add: upt_rec)

text \<open>
  The array returned by \<^verbatim>\<open>matrix()\<close> is not the exact sum of the terms' matrices. For
  the Observable of \<open>Z\<close> on qubit 0 and \<open>2 ^ - 53\<close> times \<open>Z\<close> on qubit 1, with the default
  dtype, the entry in row 0, column 0 of the exact sum is \<open>1 + 2 ^ - 53\<close>; that number
  lies halfway between 1 and the next binary64 number, and the array holds 1.
\<close>

theorem matrix_sum_is_rounded:
  "Observable_matrix (Observable_init (\<lambda>_. 0) [ex_Z0, ex_tiny_Z1]) np_complex128 =
     Inr [[c128 1, c128 0, c128 0, c128 0],
          [c128 0, c128 (1 - 1 / 2 ^ 53), c128 0, c128 0],
          [c128 0, c128 0, c128 (- 1 + 1 / 2 ^ 53), c128 0],
          [c128 0, c128 0, c128 0, c128 (- 1)]] \<and>
   complex128_value (c128 1) = Some 1 \<and>
   Observable_qubit_indices (Observable_init (\<lambda>_. 0) [ex_Z0, ex_tiny_Z1]) = [0, 1] \<and>
   PauliString_matrix ex_Z0 [0, 1] ! 0 ! 0 + PauliString_matrix ex_tiny_Z1 [0, 1] ! 0 ! 0 =
     1 + 1 / 2 ^ 53 \<and>
   (1 :: complex) \<noteq> 1 + 1 / 2 ^ 53"
proof -
  have "Observable_matrix (Observable_init (\<lambda>_. 0) [ex_Z0, ex_tiny_Z1]) np_complex128 =
     Inr [[c128 1, c128 0, c128 0, c128 0],
          [c128 0, c128 (1 - 1 / 2 ^ 53), c128 0, c128 0],
          [c128 0, c128 0, c128 (- 1 + 1 / 2 ^ 53), c128 0],
          [c128 0, c128 0, c128 0, c128 (- 1)]]"
    unfolding Observable_matrix_mat_of ex_tiny_obs accumulated_def
    using float64_round_tie float64_round_values
    by (simp add: mat_of_def upt_4 np_complex128_def c128_def ex_tiny_matrices)
  moreover have "complex128_value (c128 1) = Some 1"
    by (simp add: c128_def complex_eq_iff)
  moreover have "PauliString_matrix ex_Z0 [0, 1] ! 0 ! 0 +
      PauliString_matrix ex_tiny_Z1 [0, 1] ! 0 ! 0 = 1 + 1 / 2 ^ 53"
    by (simp add: ex_tiny_matrices)
  moreover have "(1 :: complex) \<noteq> 1 + 1 / 2 ^ 53" by simp
  ultimately show ?thesis by (simp only: ex_tiny_obs simp_thms)
qed

text \<open>
  Claim C3. For an Observable built from any terms, under any iteration order, and for
  any dtype, \<^verbatim>\<open>matrix(dtype)\<close> raises nothing and returns an array of \<open>2 ^ nqubits\<close> rows
  of \<open>2 ^ nqubits\<close> entries, where \<^verbatim>\<open>qubit_indices\<close> is the ascending list, without
  repetition, of the qubits the terms act on, and \<^verbatim>\<open>nqubits\<close> is their number. Each entry
  is accumulated from the dtype's zero by adding, in the iteration order of the term set
  (the terms, each once) and with the dtype's addition, that entry of each term's matrix on
  \<^verbatim>\<open>qubit_indices\<close>, converted to the dtype. In arithmetic without rounding that is the
  sum over the set of terms.
\<close>

theorem matrix_accumulates_terms:
  "\<exists>m. Observable_matrix (Observable_init hash paulis) dtype = Inr m \<and>
     length m = 2 ^ Observable_nqubits (Observable_init hash paulis) \<and>
     (\<forall>row \<in> set m. length row = 2 ^ Observable_nqubits (Observable_init hash paulis)) \<and>
     (\<forall>i < 2 ^ Observable_nqubits (Observable_init hash paulis).
      \<forall>j < 2 ^ Observable_nqubits (Observable_init hash paulis).
        m ! i ! j =
          accumulated dtype (Observable_qubit_indices (Observable_init hash paulis))
            (o_paulis (Observable_init hash paulis)) i j \<and>
        accumulated exact_complex (Observable_qubit_indices (Observable_init hash paulis))
            (o_paulis (Observable_init hash paulis)) i j =
          (\<Sum>p \<in> set paulis.
             PauliString_matrix p (Observable_qubit_indices (Observable_init hash paulis)) ! i ! j)) \<and>
     distinct (o_paulis (Observable_init hash paulis)) \<and>
     set (o_paulis (Observable_init hash paulis)) = set paulis \<and>
     sorted (Observable_qubit_indices (Observable_init hash paulis)) \<and>
     distinct (Observable_qubit_indices (Observable_init hash paulis)) \<and>
     set (Observable_qubit_indices (Observable_init hash paulis)) =
       (\<Union>p \<in> set paulis. set (PauliString_qubits p)) \<and>
     Observable_nqubits (Observable_init hash paulis) =
       card (\<Union>p \<in> set paulis. set (PauliString_qubits p))"
proof -
  let ?obs = "Observable_init hash paulis"
  let ?n = "2 ^ Observable_nqubits ?obs :: nat"
  let ?f = "accumulated dtype (Observable_qubit_indices ?obs) (o_paulis ?obs)"
  have "square ?n (mat_of ?n ?f)" by (rule square_mat_of)
  then have shape: "length (mat_of ?n ?f) = ?n" "\<forall>row \<in> set (mat_of ?n ?f). length row = ?n"
    by (simp_all add: square_def list_all_iff)
  have d: "distinct (o_paulis ?obs)" and s: "set (o_paulis ?obs) = set paulis"
    by (simp_all add: o_paulis_init distinct_py_set set_py_set)
  have ex: "accumulated exact_complex (Observable_qubit_indices ?obs) (o_paulis ?obs) i j =
      (\<Sum>p \<in> set paulis. PauliString_matrix p (Observable_qubit_indices ?obs) ! i ! j)" for i j
    using accumulated_exact [OF d] by (simp add: s)
  have entries: "\<forall>i < ?n. \<forall>j < ?n. mat_of ?n ?f ! i ! j = ?f i j \<and>
      accumulated exact_complex (Observable_qubit_indices ?obs) (o_paulis ?obs) i j =
        (\<Sum>p \<in> set paulis. PauliString_matrix p (Observable_qubit_indices ?obs) ! i ! j)"
    by (simp add: mat_of_nth ex)
  from Observable_matrix_mat_of [of ?obs dtype] shape entries d s
    qubit_indices_of_init [of hash paulis]
  show ?thesis by blast
qed

text \<open>
  The theorem at the Observable of \<open>X\<close> on qubit 5 and \<open>Z\<close> on qubit 2, with the default
  dtype: the qubit indices are 2 and 5, the array has 4 rows; the entry in row 0, column 1
  is \<open>(0 + 1) + 0\<close>, the one in row 2, column 2 is \<open>(0 + 0) + (- 1)\<close>, and the exact sums
  there are 1 and \<open>- 1\<close>.
\<close>

lemma ex_X5_Z2_obs:
  "o_paulis (Observable_init (\<lambda>_. 0) [ex_X5, ex_Z2]) = [ex_X5, ex_Z2]"
  "Observable_qubit_indices (Observable_init (\<lambda>_. 0) [ex_X5, ex_Z2]) = [2, 5]"
  "Observable_nqubits (Observable_init (\<lambda>_. 0) [ex_X5, ex_Z2]) = 2"
proof -
  show 1: "o_paulis (Observable_init (\<lambda>_. 0) [ex_X5, ex_Z2]) = [ex_X5, ex_Z2]"
    by (simp add: o_paulis_init py_set_def ex_X5_def ex_Z2_def)
  show 2: "Observable_qubit_indices (Observable_init (\<lambda>_. 0) [ex_X5, ex_Z2]) = [2, 5]"
    unfolding Observable_qubit_indices_def Observable_qubits_def 1 sorted_list_of_set_sort_remdups
    by (simp add: ex_X5_def ex_Z2_def PauliString_qubits_def)
  show "Observable_nqubits (Observable_init (\<lambda>_. 0) [ex_X5, ex_Z2]) = 2"
    by (simp add: Observable_nqubits_def 2)
qed

lemma ex_X5_Z2_matrices:
  "PauliString_matrix ex_X5 [2, 5] =
     [[0, 1, 0, 0], [1, 0, 0, 0], [0, 0, 0, 1], [0, 0, 1, 0]]"
  "PauliString_matrix ex_Z2 [2, 5] =
     [[1, 0, 0, 0], [0, 1, 0, 0], [0, 0, - 1, 0], [0, 0, 0, - 1]]"
  by (simp_all add: PauliString_matrix_def kron_def pauli_at_def ex_X5_def ex_Z2_def)

theorem matrix_accumulates_terms_witness:
  "\<exists>m. Observable_matrix (Observable_init (\<lambda>_. 0) [ex_X5, ex_Z2]) np_complex128 = Inr m \<and>
     length m = 4 \<and> m ! 0 ! 1 = c128 1 \<and> m ! 2 ! 2 = c128 (- 1) \<and>
     (\<Sum>p \<in> set [ex_X5, ex_Z2]. PauliString_matrix p [2, 5] ! 0 ! 1) = 1 \<and>
     (\<Sum>p \<in> set [ex_X5, ex_Z2]. PauliString_matrix p [2, 5] ! 2 ! 2) = - 1 \<and>
     Observable_qubit_indices (Observable_init (\<lambda>_. 0) [ex_X5, ex_Z2]) = [2, 5] \<and>
     Observable_nqubits (Observable_init (\<lambda>_. 0) [ex_X5, ex_Z2]) = 2"
proof -
  let ?obs = "Observable_init (\<lambda>_. 0) [ex_X5, ex_Z2]"
  have N: "(2::nat) ^ 2 = 4" by simp
  have a: "accumulated np_complex128 [2, 5] [ex_X5, ex_Z2] 0 1 = c128 1"
    "accumulated np_complex128 [2, 5] [ex_X5, ex_Z2] 2 2 = c128 (- 1)"
    using float64_round_values
    by (simp_all add: accumulated_def np_complex128_def c128_def ex_X5_Z2_matrices)
  have e: "accumulated exact_complex [2, 5] [ex_X5, ex_Z2] 0 1 = 1"
    "accumulated exact_complex [2, 5] [ex_X5, ex_Z2] 2 2 = - 1"
    by (simp_all add: accumulated_def exact_complex_def ex_X5_Z2_matrices)
  from matrix_accumulates_terms [of "\<lambda>_. 0" "[ex_X5, ex_Z2]" np_complex128]
  obtain m where m: "Observable_matrix ?obs np_complex128 = Inr m" "length m = 4"
    "\<forall>i < 4. \<forall>j < 4.
       m ! i ! j = accumulated np_complex128 [2, 5] [ex_X5, ex_Z2] i j \<and>
       accumulated exact_complex [2, 5] [ex_X5, ex_Z2] i j =
         (\<Sum>p \<in> set [ex_X5, ex_Z2]. PauliString_matrix p [2, 5] ! i ! j)"
    unfolding ex_X5_Z2_obs N by blast
  from m(3) have "m ! 0 ! 1 = c128 1" "m ! 2 ! 2 = c128 (- 1)"
    "(\<Sum>p \<in> set [ex_X5, ex_Z2]. PauliString_matrix p [2, 5] ! 0 ! 1) = 1"
    "(\<Sum>p \<in> set [ex_X5, ex_Z2]. PauliString_matrix p [2, 5] ! 2 ! 2) = - 1"
    using a e by simp_all
  with m(1,2) ex_X5_Z2_obs(2,3) show ?thesis by blast
qed

section \<open>The Observable of no terms\<close>

text \<open>
  Claim C10. For an Observable constructed from zero terms, \<^verbatim>\<open>nterms\<close> is 0,
  \<^verbatim>\<open>qubit_indices\<close> is the empty list, \<^verbatim>\<open>partition()\<close> returns the empty set and
  \<^verbatim>\<open>matrix()\<close> returns, without raising, the matrix of one row holding one zero, the zero
  of the dtype.
\<close>

theorem empty_observable:
  "Observable_nterms (Observable_init hash []) = 0 \<and>
   Observable_qubit_indices (Observable_init hash []) = [] \<and>
   Observable_partition copy_hash (Observable_init hash []) = {} \<and>
   Observable_matrix (Observable_init hash []) dtype = Inr [[dt_zero dtype]]"
  by (simp add: Observable_nterms_def Observable_qubit_indices_def Observable_qubits_def
      Observable_partition_def deepcopy_set_def Observable_matrix_def Observable_nqubits_def
      Observable_init_def py_set_def zeros_def)

section \<open>The closest Clifford angle\<close>

lemma mod_2pi_shift:
  assumes "2 * pi * of_int k \<le> x" and "x < 2 * pi * (of_int k + 1)"
  shows "mod_2pi x = x - 2 * pi * of_int k"
proof -
  have "of_int k \<le> x / (2 * pi)"
    using assms(1) by (simp add: pos_le_divide_eq mult.commute)
  moreover have "x / (2 * pi) < of_int k + 1"
    using assms(2) by (simp add: pos_divide_less_eq mult.commute)
  ultimately have "\<lfloor>x / (2 * pi)\<rfloor> = k" by (simp add: floor_eq_iff)
  then show ?thesis by (simp add: mod_2pi_def)
qed

lemma mod_2pi_id: "0 \<le> x \<Longrightarrow> x < 2 * pi \<Longrightarrow> mod_2pi x = x"
  using mod_2pi_shift [of 0 x] by simp

lemma mod_2pi_neg: "- (2 * pi) \<le> x \<Longrightarrow> x < 0 \<Longrightarrow> mod_2pi x = x + 2 * pi"
  using mod_2pi_shift [of "-1" x] by simp

lemma circ_near:
  assumes "\<bar>a - c\<bar> < pi / 4"
  shows "circular_distance a c = \<bar>a - c\<bar>"
proof (cases "0 \<le> a - c")
  case True
  with assms have "mod_2pi (a - c) = a - c" using pi_gt_zero by (intro mod_2pi_id) auto
  with True assms show ?thesis using pi_gt_zero by (simp add: circular_distance_def Let_def min_def)
next
  case False
  with assms have "mod_2pi (a - c) = a - c + 2 * pi" using pi_gt_zero by (intro mod_2pi_neg) auto
  with False assms show ?thesis using pi_gt_zero by (simp add: circular_distance_def Let_def min_def)
qed

lemma circ_far:
  assumes "\<bar>a - c\<bar> < pi / 4" and "c' - c = real_of_int k * (pi / 2)" and "k \<in> {-3, -2, -1, 1, 2, 3}"
  shows "pi / 4 < circular_distance a c'"
proof -
  define e where "e = a - c"
  have e: "- (pi / 4) < e" "e < pi / 4" using assms(1) unfolding e_def by linarith+
  have d: "a - c' = e - real_of_int k * (pi / 2)" using assms(2) by (simp add: e_def algebra_simps)
  from assms(3) consider "k = -3" | "k = -2" | "k = -1" | "k = 1" | "k = 2" | "k = 3" by auto
  then show ?thesis
  proof cases
    case 1
    then have "mod_2pi (a - c') = a - c'" using e d pi_gt_zero by (intro mod_2pi_id) auto
    then show ?thesis using 1 e d pi_gt_zero by (simp add: circular_distance_def Let_def min_def)
  next
    case 2
    then have "mod_2pi (a - c') = a - c'" using e d pi_gt_zero by (intro mod_2pi_id) auto
    then show ?thesis using 2 e d pi_gt_zero by (simp add: circular_distance_def Let_def min_def)
  next
    case 3
    then have "mod_2pi (a - c') = a - c'" using e d pi_gt_zero by (intro mod_2pi_id) auto
    then show ?thesis using 3 e d pi_gt_zero by (simp add: circular_distance_def Let_def min_def)
  next
    case 4
    then have "mod_2pi (a - c') = a - c' + 2 * pi" using e d pi_gt_zero by (intro mod_2pi_neg) auto
    then show ?thesis using 4 e d pi_gt_zero by (simp add: circular_distance_def Let_def min_def)
  next
    case 5
    then have "mod_2pi (a - c') = a - c' + 2 * pi" using e d pi_gt_zero by (intro mod_2pi_neg) auto
    then show ?thesis using 5 e d pi_gt_zero by (simp add: circular_distance_def Let_def min_def)
  next
    case 6
    then have "mod_2pi (a - c') = a - c' + 2 * pi" using e d pi_gt_zero by (intro mod_2pi_neg) auto
    then show ?thesis using 6 e d pi_gt_zero by (simp add: circular_distance_def Let_def min_def)
  qed
qed



lemma CLIFFORD_ANGLES_index:
  assumes "c \<in> set CLIFFORD_ANGLES"
  obtains i :: int where "0 \<le> i" "i \<le> 3" "c = real_of_int i * (pi / 2)"
proof -
  from assms consider "c = 0" | "c = pi / 2" | "c = pi" | "c = 3 / 2 * pi"
    by (auto simp: CLIFFORD_ANGLES_def)
  then show ?thesis
  proof cases
    case 1 then show ?thesis using that [of 0] by simp
  next
    case 2 then show ?thesis using that [of 1] by simp
  next
    case 3 then show ?thesis using that [of 2] by simp
  next
    case 4 then show ?thesis using that [of 3] by simp
  qed
qed

lemma closest_clifford_strict_min:
  assumes "c \<in> set CLIFFORD_ANGLES"
    and "\<And>c'. c' \<in> set CLIFFORD_ANGLES \<Longrightarrow> c' \<noteq> c \<Longrightarrow> circular_distance ang c < circular_distance ang c'"
  shows "closest_clifford ang = c"
proof -
  have ne: "pi / 2 \<noteq> 0" "pi \<noteq> 0" "3 / 2 * pi \<noteq> 0" "pi \<noteq> pi / 2" "3 / 2 * pi \<noteq> pi / 2" "3 / 2 * pi \<noteq> pi"
    using pi_gt_zero by simp_all
  from assms(1) consider "c = 0" | "c = pi / 2" | "c = pi" | "c = 3 / 2 * pi"
    by (auto simp: CLIFFORD_ANGLES_def)
  then show ?thesis
  proof cases
    case 1
    have "circular_distance ang 0 < circular_distance ang (pi / 2)"
      "circular_distance ang 0 < circular_distance ang pi"
      "circular_distance ang 0 < circular_distance ang (3 / 2 * pi)"
      using assms(2) [of "pi / 2"] assms(2) [of pi] assms(2) [of "3 / 2 * pi"] ne
      unfolding 1 CLIFFORD_ANGLES_def by simp_all
    then show ?thesis unfolding 1 closest_clifford_def CLIFFORD_ANGLES_def by simp
  next
    case 2
    have "circular_distance ang (pi / 2) < circular_distance ang 0"
      "circular_distance ang (pi / 2) < circular_distance ang pi"
      "circular_distance ang (pi / 2) < circular_distance ang (3 / 2 * pi)"
      using assms(2) [of 0] assms(2) [of pi] assms(2) [of "3 / 2 * pi"] ne
      unfolding 2 CLIFFORD_ANGLES_def by simp_all
    then show ?thesis unfolding 2 closest_clifford_def CLIFFORD_ANGLES_def by simp
  next
    case 3
    have "circular_distance ang pi < circular_distance ang 0"
      "circular_distance ang pi < circular_distance ang (pi / 2)"
      "circular_distance ang pi < circular_distance ang (3 / 2 * pi)"
      using assms(2) [of 0] assms(2) [of "pi / 2"] assms(2) [of "3 / 2 * pi"] ne
      unfolding 3 CLIFFORD_ANGLES_def by simp_all
    then show ?thesis unfolding 3 closest_clifford_def CLIFFORD_ANGLES_def by simp
  next
    case 4
    have "circular_distance ang (3 / 2 * pi) < circular_distance ang 0"
      "circular_distance ang (3 / 2 * pi) < circular_distance ang (pi / 2)"
      "circular_distance ang (3 / 2 * pi) < circular_distance ang pi"
      using assms(2) [of 0] assms(2) [of "pi / 2"] assms(2) [of pi] ne
      unfolding 4 CLIFFORD_ANGLES_def by simp_all
    then show ?thesis unfolding 4 closest_clifford_def CLIFFORD_ANGLES_def by simp
  qed
qed

lemma closest_clifford_interior:
  assumes "c \<in> set CLIFFORD_ANGLES" and "\<bar>ang - c\<bar> < pi / 4"
  shows "closest_clifford ang = c"
proof (rule closest_clifford_strict_min [OF assms(1)])
  fix c' assume c': "c' \<in> set CLIFFORD_ANGLES" "c' \<noteq> c"
  from assms(1) obtain i where i: "0 \<le> i" "i \<le> 3" "c = real_of_int i * (pi / 2)"
    by (rule CLIFFORD_ANGLES_index)
  from c'(1) obtain j where j: "0 \<le> j" "j \<le> 3" "c' = real_of_int j * (pi / 2)"
    by (rule CLIFFORD_ANGLES_index)
  from c'(2) i(3) j(3) have "j \<noteq> i" by auto
  with i j have k: "j - i \<in> {-3, -2, -1, 1, 2, 3}" by auto
  have "c' - c = real_of_int (j - i) * (pi / 2)"
    by (simp add: i(3) j(3) algebra_simps)
  from circ_far [OF assms(2) this k] circ_near [OF assms(2)] assms(2)
  show "circular_distance ang c < circular_distance ang c'" by simp
qed

lemma circ_exact:
  assumes "\<bar>e\<bar> \<le> pi / 4" and "k \<in> {-3, -2, -1, 0, 1, 2, 3}"
  shows "circular_distance (c + e) (c + real_of_int k * (pi / 2)) =
     (if k = 0 then \<bar>e\<bar> else if k = 1 \<or> k = -3 then pi / 2 - e
      else if k = -1 \<or> k = 3 then pi / 2 + e else pi - \<bar>e\<bar>)"
proof -
  have e: "- (pi / 4) \<le> e" "e \<le> pi / 4" using assms(1) by linarith+
  have d: "c + e - (c + real_of_int k * (pi / 2)) = e - real_of_int k * (pi / 2)" by simp
  have pos: "mod_2pi x = x" "circular_distance (c + e) (c + real_of_int k * (pi / 2)) = min x (2 * pi - x)"
    if "x = e - real_of_int k * (pi / 2)" "0 \<le> x" "x < 2 * pi" for x
    using that mod_2pi_id [of x] by (simp_all add: circular_distance_def Let_def d)
  have neg: "circular_distance (c + e) (c + real_of_int k * (pi / 2)) = min (x + 2 * pi) (- x)"
    if "x = e - real_of_int k * (pi / 2)" "- (2 * pi) \<le> x" "x < 0" for x
    using that mod_2pi_neg [of x] by (simp_all add: circular_distance_def Let_def d)
  from assms(2) consider "k = -3" | "k = -2" | "k = -1" | "k = 0 \<and> 0 \<le> e" | "k = 0 \<and> e < 0" | "k = 1" | "k = 2" | "k = 3" by fastforce
  then show ?thesis
  proof cases
    case 1 then show ?thesis using pos(2) [of "e + 3 * (pi / 2)"] e pi_gt_zero by (simp add: min_def)
  next
    case 2 then show ?thesis using pos(2) [of "e + 2 * (pi / 2)"] e pi_gt_zero by (simp add: min_def)
  next
    case 3 then show ?thesis using pos(2) [of "e + (pi / 2)"] e pi_gt_zero by (simp add: min_def)
  next
    case 4 then show ?thesis using pos(2) [of e] e pi_gt_zero by (simp add: min_def)
  next
    case 5 then show ?thesis using neg [of e] e pi_gt_zero by (simp add: min_def)
  next
    case 6 then show ?thesis using neg [of "e - pi / 2"] e pi_gt_zero by (simp add: min_def)
  next
    case 7 then show ?thesis using neg [of "e - 2 * (pi / 2)"] e pi_gt_zero by (simp add: min_def)
  next
    case 8 then show ?thesis using neg [of "e - 3 * (pi / 2)"] e pi_gt_zero by (simp add: min_def)
  qed
qed

lemma four_dists:
  assumes "\<bar>e\<bar> \<le> pi / 4" and "0 \<le> i" and "i \<le> 3"
  shows "circular_distance (real_of_int i * (pi / 2) + e) 0 = quarter_dist e (0 - i)"
    and "circular_distance (real_of_int i * (pi / 2) + e) (pi / 2) = quarter_dist e (1 - i)"
    and "circular_distance (real_of_int i * (pi / 2) + e) pi = quarter_dist e (2 - i)"
    and "circular_distance (real_of_int i * (pi / 2) + e) (3 / 2 * pi) = quarter_dist e (3 - i)"
proof -
  have k: "j - i \<in> {-3, -2, -1, 0, 1, 2, 3}" if "0 \<le> j" "j \<le> 3" for j
    using that assms(2,3) by auto
  have *: "circular_distance (real_of_int i * (pi / 2) + e) (real_of_int j * (pi / 2)) = quarter_dist e (j - i)"
    if "0 \<le> j" "j \<le> 3" for j
  proof -
    have eq: "real_of_int i * (pi / 2) + real_of_int (j - i) * (pi / 2) = real_of_int j * (pi / 2)"
      by (simp add: field_simps)
    from circ_exact [OF assms(1) k [OF that], of "real_of_int i * (pi / 2)"]
    show ?thesis by (simp only: eq quarter_dist_def)
  qed
  show "circular_distance (real_of_int i * (pi / 2) + e) 0 = quarter_dist e (0 - i)"
    using * [of 0] by simp
  show "circular_distance (real_of_int i * (pi / 2) + e) (pi / 2) = quarter_dist e (1 - i)"
    using * [of 1] by simp
  show "circular_distance (real_of_int i * (pi / 2) + e) pi = quarter_dist e (2 - i)"
    using * [of 2] by simp
  show "circular_distance (real_of_int i * (pi / 2) + e) (3 / 2 * pi) = quarter_dist e (3 - i)"
    using * [of 3] by simp
qed

lemma closest_clifford_quarter:
  assumes "\<bar>e\<bar> \<le> pi / 4" and "0 \<le> i" and "i \<le> 3"
  shows "closest_clifford (real_of_int i * (pi / 2) + e) =
     (let d0 = quarter_dist e (0 - i); d1 = quarter_dist e (1 - i);
          d2 = quarter_dist e (2 - i); d3 = quarter_dist e (3 - i);
          b1 = (if d1 < d0 then 1 else 0 :: nat);
          db1 = (if d1 < d0 then d1 else d0);
          b2 = (if d2 < db1 then 2 else b1);
          db2 = (if d2 < db1 then d2 else db1);
          b3 = (if d3 < db2 then 3 else b2)
      in CLIFFORD_ANGLES ! b3)"
  using four_dists [OF assms] unfolding closest_clifford_def CLIFFORD_ANGLES_def
  by (simp add: Let_def)

lemma closest_clifford_tie:
  assumes "c \<in> set CLIFFORD_ANGLES"
  shows "closest_clifford (c + pi / 4) = (if c = 3 / 2 * pi then 0 else c) \<and>
         closest_clifford (c - pi / 4) = (if c = 0 then 0 else c - pi / 2)"
proof -
  have up: "closest_clifford (real_of_int i * (pi / 2) + pi / 4) =
      CLIFFORD_ANGLES ! (if i = 3 then 0 else nat i)" if "0 \<le> i" "i \<le> 3" for i
  proof -
    from that consider "i = 0" | "i = 1" | "i = 2" | "i = 3" by linarith
    then show ?thesis
      using closest_clifford_quarter [of "pi / 4" i] pi_gt_zero
      by cases (simp_all add: quarter_dist_def Let_def)
  qed
  have down: "closest_clifford (real_of_int i * (pi / 2) + - (pi / 4)) =
      CLIFFORD_ANGLES ! (if i = 0 then 0 else nat (i - 1))" if "0 \<le> i" "i \<le> 3" for i
  proof -
    from that consider "i = 0" | "i = 1" | "i = 2" | "i = 3" by linarith
    then show ?thesis
      using closest_clifford_quarter [of "- (pi / 4)" i] pi_gt_zero
      by cases (simp_all add: quarter_dist_def Let_def)
  qed
  from assms consider "c = 0" | "c = pi / 2" | "c = pi" | "c = 3 / 2 * pi"
    by (auto simp: CLIFFORD_ANGLES_def)
  then show ?thesis
  proof cases
    case 1 show ?thesis unfolding 1 using up [of 0] down [of 0] pi_gt_zero by (simp add: CLIFFORD_ANGLES_def)
  next
    case 2 show ?thesis unfolding 2 using up [of 1] down [of 1] pi_gt_zero by (simp add: CLIFFORD_ANGLES_def)
  next
    case 3 show ?thesis unfolding 3 using up [of 2] down [of 2] pi_gt_zero by (simp add: CLIFFORD_ANGLES_def)
  next
    case 4 show ?thesis unfolding 4 using up [of 3] down [of 3] pi_gt_zero by (simp add: CLIFFORD_ANGLES_def)
  qed
qed

text \<open>
  Claim C6. An angle strictly within \<open>\<pi>/4\<close> of a canonical Clifford angle is mapped by
  \<^verbatim>\<open>_closest_clifford\<close> to that angle. On the boundary, \<open>\<pi>/4\<close> away from two neighbouring
  canonical angles, the result is the one of the two that comes first in the order
  \<open>0, \<pi>/2, \<pi>, 3\<pi>/2\<close>: above \<open>3\<pi>/2\<close> and below \<open>0\<close> that is \<open>0\<close>.
\<close>

theorem closest_clifford_within_quarter:
  assumes "c \<in> set CLIFFORD_ANGLES"
  shows "(\<bar>ang - c\<bar> < pi / 4 \<longrightarrow> closest_clifford ang = c) \<and>
         closest_clifford (c + pi / 4) = (if c = 3 / 2 * pi then 0 else c) \<and>
         closest_clifford (c - pi / 4) = (if c = 0 then 0 else c - pi / 2)"
  using closest_clifford_interior [OF assms] closest_clifford_tie [OF assms] by blast

theorem closest_clifford_within_quarter_witness:
  "(0::real) \<in> set CLIFFORD_ANGLES \<and> \<bar>1 / 4 - 0\<bar> < pi / 4 \<and> closest_clifford (1 / 4) = 0 \<and>
   closest_clifford (0 + pi / 4) = 0"
proof -
  have c: "(0::real) \<in> set CLIFFORD_ANGLES" by (simp add: CLIFFORD_ANGLES_def)
  have near: "\<bar>1 / 4 - 0\<bar> < pi / 4" using pi_ge_two by simp
  from closest_clifford_within_quarter [OF c, of "1 / 4"] near
  have "closest_clifford (1 / 4) = 0" "closest_clifford (0 + pi / 4) = 0" by simp_all
  with c near show ?thesis by blast
qed

section \<open>Replacement yields Clifford angles\<close>

lemma pick_from_less: "p \<noteq> [] \<Longrightarrow> pick_from p t < length p"
  by (induction p t rule: pick_from.induct) auto

lemma choice_less: "p \<noteq> [] \<Longrightarrow> choice p rs = (i, rs') \<Longrightarrow> i < length p"
  by (auto simp: choice_def pick_from_less split: prod.splits)

lemma CLIFFORD_ANGLES_range: "c \<in> set CLIFFORD_ANGLES \<Longrightarrow> 0 \<le> c \<and> c < 2 * pi"
proof -
  assume "c \<in> set CLIFFORD_ANGLES"
  then consider "c = 0" | "c = pi / 2" | "c = pi" | "c = 3 / 2 * pi"
    by (auto simp: CLIFFORD_ANGLES_def)
  then show ?thesis
  proof cases
    case 1 show ?thesis unfolding 1 using pi_gt_zero by simp
  next
    case 2 show ?thesis unfolding 2 using pi_gt_zero by simp
  next
    case 3 show ?thesis unfolding 3 using pi_gt_zero by simp
  next
    case 4 show ?thesis unfolding 4 using pi_gt_zero by simp
  qed
qed

lemma is_clifford_angle_canonical:
  assumes "0 \<le> tol" and "c \<in> set CLIFFORD_ANGLES"
  shows "is_clifford_angle tol c"
proof -
  from CLIFFORD_ANGLES_range [OF assms(2)] have "mod_2pi c = c" by (simp add: mod_2pi_id)
  with assms show ?thesis
    unfolding is_clifford_angle_def list_ex_iff by (intro bexI [of _ c]) simp_all
qed

lemma closest_clifford_canonical: "closest_clifford ang \<in> set CLIFFORD_ANGLES"
  by (simp add: closest_clifford_def CLIFFORD_ANGLES_def)

lemma random_clifford_canonical:
  assumes "random_clifford ang rs = (c, rs')"
  shows "c \<in> set CLIFFORD_ANGLES"
proof -
  obtain i rs1 where ch: "choice (map (\<lambda>c. 1) CLIFFORD_ANGLES) rs = (i, rs1)"
    by (cases "choice (map (\<lambda>c. 1) CLIFFORD_ANGLES) rs")
  then have "i < length CLIFFORD_ANGLES"
    using choice_less [OF _ ch] by (simp add: CLIFFORD_ANGLES_def)
  with assms ch show ?thesis by (auto simp: random_clifford_def)
qed

lemma probabilistic_canonical:
  assumes "probabilistic_angle_to_clifford ang sigma rs = (c, rs')"
  shows "c \<in> set CLIFFORD_ANGLES"
proof -
  let ?p = "map (\<lambda>c. gaussian_kernel (circular_distance ang c) sigma) CLIFFORD_ANGLES"
  obtain i rs1 where ch: "choice ?p rs = (i, rs1)"
    by (cases "choice ?p rs")
  then have "i < length CLIFFORD_ANGLES"
    using choice_less [OF _ ch] by (simp add: CLIFFORD_ANGLES_def)
  with assms ch show ?thesis by (auto simp: probabilistic_angle_to_clifford_def)
qed

lemma map_random_all:
  assumes "\<And>x rs y rs'. f x rs = (y, rs') \<Longrightarrow> P y"
  shows "map_random f xs rs = (ys, rs') \<Longrightarrow> list_all P ys \<and> length ys = length xs"
proof (induction xs arbitrary: rs ys rs')
  case Nil
  then show ?case by simp
next
  case (Cons x xs)
  obtain y rs1 where f: "f x rs = (y, rs1)" by (cases "f x rs")
  obtain zs rs2 where m: "map_random f xs rs1 = (zs, rs2)" by (cases "map_random f xs rs1")
  from Cons.prems f m have "ys = y # zs" by simp
  with Cons.IH [OF m] assms [OF f] show ?case by simp
qed

lemma replace_canonical:
  assumes "replace angles method sigma_select sigma_replace rs = Inr (out, rs')"
  shows "set out \<subseteq> set CLIFFORD_ANGLES \<and> length out = length angles"
proof -
  consider "method = ''closest''" | "method = ''random''" | "method = ''probabilistic''"
    | "method \<noteq> ''closest''" "method \<noteq> ''random''" "method \<noteq> ''probabilistic''" by blast
  then show ?thesis
  proof cases
    case 1
    with assms show ?thesis by (auto simp: replace_def closest_clifford_canonical)
  next
    case 2
    with assms have m: "map_random random_clifford angles rs = (out, rs')"
      by (simp add: replace_def)
    have "list_all (\<lambda>c. c \<in> set CLIFFORD_ANGLES) out \<and> length out = length angles"
      by (rule map_random_all [OF _ m]) (rule random_clifford_canonical)
    then show ?thesis by (auto simp: list_all_iff)
  next
    case 3
    let ?f = "\<lambda>ang. probabilistic_angle_to_clifford ang sigma_replace"
    from 3 assms have m: "map_random ?f angles rs = (out, rs')"
      by (simp add: replace_def)
    have "list_all (\<lambda>c. c \<in> set CLIFFORD_ANGLES) out \<and> length out = length angles"
      by (rule map_random_all [OF _ m]) (rule probabilistic_canonical)
    then show ?thesis by (auto simp: list_all_iff)
  next
    case 4
    with assms show ?thesis by (simp add: replace_def)
  qed
qed

lemma replace_returns:
  assumes "method_replace \<in> {''closest'', ''random'', ''probabilistic''}"
  obtains out rs' where "replace angles method_replace sigma_select sigma_replace rs = Inr (out, rs')"
proof -
  have "\<exists>res. replace angles method_replace sigma_select sigma_replace rs = Inr res"
    using assms by (auto simp: replace_def)
  then obtain res where "replace angles method_replace sigma_select sigma_replace rs = Inr res" ..
  then show ?thesis using that by (cases res) auto
qed

text \<open>
  Claim C5. Under each of the policies \<^verbatim>\<open>closest\<close>, \<^verbatim>\<open>random\<close> and \<^verbatim>\<open>probabilistic\<close>,
  \<^verbatim>\<open>_replace\<close> returns one angle for each angle it is given, and every angle it returns
  satisfies \<^verbatim>\<open>_is_clifford_angle\<close> (for any tolerance that is not negative).
\<close>

theorem replace_gives_clifford_angles:
  assumes "0 \<le> tol" and "method_replace \<in> {''closest'', ''random'', ''probabilistic''}"
  shows "\<exists>out rs'. replace angles method_replace sigma_select sigma_replace rs = Inr (out, rs') \<and>
           length out = length angles \<and> (\<forall>a \<in> set out. is_clifford_angle tol a)"
proof -
  from assms(2) obtain out rs' where
    r: "replace angles method_replace sigma_select sigma_replace rs = Inr (out, rs')"
    by (rule replace_returns)
  from replace_canonical [OF r] is_clifford_angle_canonical [OF assms(1)]
  have "length out = length angles" "\<forall>a \<in> set out. is_clifford_angle tol a" by auto
  with r show ?thesis by blast
qed

theorem replace_gives_clifford_angles_witness:
  "(0::real) \<le> 1 / 100 \<and> ''closest'' \<in> {''closest'', ''random'', ''probabilistic''} \<and>
   (\<exists>out rs'. replace [1 / 4, 1 / 2] ''closest'' 1 1 ex_rs = Inr (out, rs') \<and> length out = 2 \<and>
      is_clifford_angle (1 / 100) (out ! 0) \<and> is_clifford_angle (1 / 100) (out ! 1))"
proof -
  have t: "(0::real) \<le> 1 / 100" by simp
  have m: "''closest'' \<in> {''closest'', ''random'', ''probabilistic''}" by simp
  from replace_gives_clifford_angles [OF t m, of "[1 / 4, 1 / 2]" 1 1 ex_rs]
  obtain out rs' where o: "replace [1 / 4, 1 / 2] ''closest'' 1 1 ex_rs = Inr (out, rs')"
    "length out = 2" "\<forall>a \<in> set out. is_clifford_angle (1 / 100) a" by auto
  from o(2,3) have "is_clifford_angle (1 / 100) (out ! 0)" "is_clifford_angle (1 / 100) (out ! 1)"
    by simp_all
  with o(1,2) t m show ?thesis by blast
qed

section \<open>Training circuits keep the requested number of non-Clifford rotations\<close>

lemma py_round_bounds:
  assumes "0 \<le> x" and "x \<le> real n"
  shows "0 \<le> py_round x \<and> py_round x \<le> int n"
proof -
  have f0: "0 \<le> \<lfloor>x\<rfloor>" using assms(1) by simp
  have fn: "\<lfloor>x\<rfloor> \<le> int n" using assms(2) by (simp add: floor_le_iff)
  show ?thesis
  proof (cases "\<lfloor>x\<rfloor> = int n")
    case True
    then have "real n \<le> x" using of_int_floor_le [of x] by simp
    with assms(2) have "x = real n" by simp
    then show ?thesis by (simp add: py_round_def)
  next
    case False
    with fn have "\<lfloor>x\<rfloor> + 1 \<le> int n" by simp
    with f0 show ?thesis by (auto simp: py_round_def Let_def)
  qed
qed

lemma remove_nth_distinct:
  assumes "distinct (map fst items)" and "i < length items"
  shows "distinct (map fst (take i items @ drop (Suc i) items))"
    and "fst (items ! i) \<notin> fst ` set (take i items @ drop (Suc i) items)"
    and "set (take i items @ drop (Suc i) items) \<subseteq> set items"
    and "length (take i items @ drop (Suc i) items) = length items - 1"
proof -
  have "items = take i items @ items ! i # drop (Suc i) items"
    using assms(2) by (rule id_take_nth_drop)
  then have "distinct (map fst (take i items @ items ! i # drop (Suc i) items))"
    using assms(1) by simp
  then show "distinct (map fst (take i items @ drop (Suc i) items))"
    and "fst (items ! i) \<notin> fst ` set (take i items @ drop (Suc i) items)"
    by auto
  show "set (take i items @ drop (Suc i) items) \<subseteq> set items"
    by (auto dest: in_set_takeD in_set_dropD)
  show "length (take i items @ drop (Suc i) items) = length items - 1"
    using assms(2) by simp
qed

lemma sample_without_replacement_props:
  assumes "distinct (map fst items)"
    and "sample_without_replacement items k rs = (chosen, rs')"
  shows "distinct chosen \<and> set chosen \<subseteq> fst ` set items \<and> length chosen = min k (length items)"
  using assms
proof (induction k arbitrary: items rs chosen rs')
  case 0
  then show ?case by simp
next
  case (Suc k)
  show ?case
  proof (cases "items = []")
    case True
    with Suc.prems show ?thesis by simp
  next
    case False
    obtain i rs1 where ch: "choice (map snd items) rs = (i, rs1)"
      by (cases "choice (map snd items) rs")
    with False have i: "i < length items" using choice_less [OF _ ch] by simp
    let ?rest = "take i items @ drop (Suc i) items"
    obtain chosen' rs2 where r: "sample_without_replacement ?rest k rs1 = (chosen', rs2)"
      by (cases "sample_without_replacement ?rest k rs1")
    from Suc.prems(2) False ch r have eq: "chosen = fst (items ! i) # chosen'" by simp
    note rm = remove_nth_distinct [OF Suc.prems(1) i]
    from Suc.IH [OF rm(1) r]
    have ih: "distinct chosen'" "set chosen' \<subseteq> fst ` set ?rest" "length chosen' = min k (length ?rest)"
      by simp_all
    from ih(2) rm(2) have "fst (items ! i) \<notin> set chosen'" by blast
    moreover from ih(2) rm(3) have "set chosen' \<subseteq> fst ` set items" by blast
    moreover from i have "fst (items ! i) \<in> fst ` set items" by simp
    moreover from ih(3) rm(4) i have "Suc (length chosen') = min (Suc k) (length items)" by simp
    ultimately show ?thesis using ih(1) unfolding eq by simp
  qed
qed

lemma select_props:
  assumes "0 \<le> f" and "f \<le> 1"
    and "select angles f method sigma rs = Inr (cols, rs')"
  shows "distinct cols \<and> set cols \<subseteq> {0..<length angles} \<and>
         nat (py_round (f * real (length angles))) \<le> length angles \<and>
         length cols = length angles - nat (py_round (f * real (length angles)))"
proof -
  let ?N = "length angles"
  let ?keep = "nat (py_round (f * real ?N))"
  have "0 \<le> f * real ?N" "f * real ?N \<le> real ?N"
    using assms(1,2) by (simp_all add: mult_left_le_one_le)
  then have "0 \<le> py_round (f * real ?N)" "py_round (f * real ?N) \<le> int ?N"
    using py_round_bounds [of "f * real ?N" ?N] by blast+
  then have keep: "?keep \<le> ?N" by linarith
  consider "method = ''random''" | "method \<noteq> ''random''" "method = ''probabilistic''"
    | "method \<noteq> ''random''" "method \<noteq> ''probabilistic''" by blast
  then show ?thesis
  proof cases
    case 1
    let ?items = "map (\<lambda>i. (i, 1 :: real)) [0..<?N]"
    from 1 assms(3) have s: "sample_without_replacement ?items (?N - ?keep) rs = (cols, rs')"
      by (simp add: select_def Let_def)
    have "distinct (map fst ?items)" by (simp add: comp_def)
    from sample_without_replacement_props [OF this s] keep show ?thesis
      by (auto simp: image_image)
  next
    case 2
    let ?w = "\<lambda>i. gaussian_kernel (circular_distance (angles ! i) (closest_clifford (angles ! i))) sigma"
    let ?items = "map (\<lambda>i. (i, ?w i)) [0..<?N]"
    obtain kept rs1 where s: "sample_without_replacement ?items ?keep rs = (kept, rs1)"
      by (cases "sample_without_replacement ?items ?keep rs")
    with 2 assms(3) have cols: "cols = filter (\<lambda>i. i \<notin> set kept) [0..<?N]"
      by (simp add: select_def Let_def)
    have "distinct (map fst ?items)" by (simp add: comp_def)
    from sample_without_replacement_props [OF this s] keep
    have k: "distinct kept" "set kept \<subseteq> {0..<?N}" "length kept = ?keep"
      by (auto simp: image_image)
    have "length cols = card ({i. i \<notin> set kept} \<inter> set [0..<?N])"
      unfolding cols by (rule distinct_length_filter) simp
    also have "{i. i \<notin> set kept} \<inter> set [0..<?N] = {0..<?N} - set kept" by auto
    also have "card \<dots> = ?N - card (set kept)"
      using k(2) by (simp add: card_Diff_subset)
    also have "card (set kept) = ?keep" using k(1,3) by (simp add: distinct_card)
    finally have "length cols = ?N - ?keep" .
    with keep show ?thesis unfolding cols by auto
  next
    case 3
    with assms(3) show ?thesis by (simp add: select_def Let_def)
  qed
qed

lemma select_returns:
  assumes "method_select \<in> {''random'', ''probabilistic''}"
  obtains cols rs' where "select angles f method_select sigma rs = Inr (cols, rs')"
proof -
  have "\<exists>res. select angles f method_select sigma rs = Inr res"
    using assms by (auto simp: select_def Let_def split: prod.splits)
  then obtain res where "select angles f method_select sigma rs = Inr res" ..
  then show ?thesis using that by (cases res) auto
qed

lemma with_argument_twice: "with_argument a (with_argument b g) = with_argument a g"
  by (cases g) simp_all

lemma gate_qubits_with_argument: "gate_qubits (with_argument a g) = gate_qubits g"
  by (cases g) simp_all

lemma length_put_arguments: "length (put_arguments c upd) = length c"
  by (induction c upd rule: put_arguments.induct) simp_all

lemma qubits_put_arguments: "map gate_qubits (put_arguments c upd) = map gate_qubits c"
proof (induction c upd rule: put_arguments.induct)
  case (1 c)
  show ?case by simp
next
  case (2 c i ang rest)
  have "map gate_qubits (c[i := with_argument ang (c ! i)]) = map gate_qubits c"
  proof (rule nth_equalityI)
    show "length (map gate_qubits (c[i := with_argument ang (c ! i)])) = length (map gate_qubits c)"
      by simp
  next
    fix k assume "k < length (map gate_qubits (c[i := with_argument ang (c ! i)]))"
    then show "map gate_qubits (c[i := with_argument ang (c ! i)]) ! k = map gate_qubits c ! k"
      by (cases "k = i") (simp_all add: gate_qubits_with_argument)
  qed
  with 2 show ?case by simp
qed

lemma put_arguments_other:
  "i \<notin> fst ` set upd \<Longrightarrow> put_arguments c upd ! i = c ! i"
  by (induction c upd rule: put_arguments.induct) auto

lemma put_arguments_changed:
  "i \<in> fst ` set upd \<Longrightarrow> i < length c \<Longrightarrow>
   \<exists>a \<in> snd ` set upd. put_arguments c upd ! i = with_argument a (c ! i)"
proof (induction c upd rule: put_arguments.induct)
  case (1 c)
  then show ?case by simp
next
  case (2 c j ang rest)
  let ?c = "c[j := with_argument ang (c ! j)]"
  show ?case
  proof (cases "i \<in> fst ` set rest")
    case True
    with "2.IH" "2.prems"(2) obtain a where a: "a \<in> snd ` set rest"
      "put_arguments ?c rest ! i = with_argument a (?c ! i)" by auto
    have "with_argument a (?c ! i) = with_argument a (c ! i)"
      using "2.prems"(2) by (cases "i = j") (simp_all add: with_argument_twice)
    with a show ?thesis by auto
  next
    case False
    with "2.prems"(1) have ij: "i = j" by auto
    from False have "put_arguments ?c rest ! i = ?c ! i" by (rule put_arguments_other)
    with ij "2.prems"(2) show ?thesis by auto
  qed
qed

lemma not_non_clifford_with_argument:
  "is_clifford_angle tol a \<Longrightarrow> \<not> is_non_clifford tol (with_argument a g)"
  by (cases g) simp_all

lemma count_non_cliffords_card:
  "count_non_cliffords tol c = card {i. i < length c \<and> is_non_clifford tol (c ! i)}"
  by (simp add: count_non_cliffords_def length_filter_conv_card)

lemma map_to_near_clifford_props:
  assumes tol: "0 \<le> tol" and f: "0 \<le> f" "f \<le> 1"
    and run: "map_to_near_clifford tol c f method_select method_replace sigma_select
                sigma_replace rs = Inr (c', rs')"
  shows "length c' = length c" and "map gate_qubits c' = map gate_qubits c"
    and "int (count_non_cliffords tol c') = py_round (f * real (count_non_cliffords tol c))"
proof -
  let ?A = "{i. i < length c \<and> is_non_clifford tol (c ! i)}"
  define positions where "positions = filter (\<lambda>i. is_non_clifford tol (c ! i)) [0..<length c]"
  define rz where "rz = map (\<lambda>i. get_argument (c ! i)) positions"
  have dp: "distinct positions" and sp: "set positions = ?A"
    by (auto simp: positions_def)
  have N: "length positions = count_non_cliffords tol c"
    using distinct_card [OF dp] by (simp add: sp count_non_cliffords_card)
  from run obtain cols rs1 where
    sel: "select rz f method_select sigma_select rs = Inr (cols, rs1)"
    by (auto simp: map_to_near_clifford_def Let_def positions_def rz_def split: sum.splits)
  from run sel obtain new where
    rep: "replace (map (\<lambda>k. rz ! k) cols) method_replace sigma_select sigma_replace rs1 = Inr (new, rs')"
    and c': "c' = put_arguments c (zip (map (\<lambda>k. positions ! k) cols) new)"
    by (auto simp: map_to_near_clifford_def Let_def positions_def rz_def split: sum.splits)
  let ?keep = "nat (py_round (f * real (length positions)))"
  from select_props [OF f sel]
  have cols: "distinct cols" "set cols \<subseteq> {0..<length positions}" "?keep \<le> length positions"
    "length cols = length positions - ?keep"
    by (simp_all add: rz_def)
  from replace_canonical [OF rep]
  have new: "set new \<subseteq> set CLIFFORD_ANGLES" "length new = length cols" by simp_all
  let ?P = "map (\<lambda>k. positions ! k) cols"
  let ?upd = "zip ?P new"
  have "inj_on (\<lambda>k. positions ! k) (set cols)"
    using dp cols(2) by (intro inj_on_nth) auto
  with cols(1) have dP: "distinct ?P" by (simp add: distinct_map)
  have sP: "set ?P \<subseteq> ?A"
    using cols(2) sp by (auto simp: subset_iff)
  have fst_upd: "fst ` set ?upd = set ?P"
    using new(2) by (metis length_map map_fst_zip set_map)
  have snd_upd: "snd ` set ?upd \<subseteq> set CLIFFORD_ANGLES"
    using new(1) by (auto dest: set_zip_rightD)
  show len: "length c' = length c" by (simp add: c' length_put_arguments)
  show "map gate_qubits c' = map gate_qubits c" by (simp add: c' qubits_put_arguments)
  have "{i. i < length c' \<and> is_non_clifford tol (c' ! i)} = ?A - set ?P"
  proof (rule set_eqI)
    fix i
    show "i \<in> {i. i < length c' \<and> is_non_clifford tol (c' ! i)} \<longleftrightarrow> i \<in> ?A - set ?P"
    proof (cases "i \<in> set ?P")
      case True
      show ?thesis
      proof (cases "i < length c")
        case False
        with True len show ?thesis by simp
      next
        case il: True
        from True fst_upd have "i \<in> fst ` set ?upd" by simp
        from put_arguments_changed [OF this il] obtain a where
          a: "a \<in> snd ` set ?upd" "c' ! i = with_argument a (c ! i)" unfolding c' by blast
        from a(1) snd_upd have "is_clifford_angle tol a"
          using is_clifford_angle_canonical [OF tol] by blast
        then have "\<not> is_non_clifford tol (c' ! i)"
          unfolding a(2) by (rule not_non_clifford_with_argument)
        with True show ?thesis by simp
      qed
    next
      case False
      with fst_upd have "i \<notin> fst ` set ?upd" by simp
      then have "c' ! i = c ! i" unfolding c' by (rule put_arguments_other)
      with False len show ?thesis by simp
    qed
  qed
  then have "count_non_cliffords tol c' = card (?A - set ?P)"
    by (simp add: count_non_cliffords_card)
  also have "\<dots> = card ?A - card (set ?P)"
    using sP by (simp add: card_Diff_subset)
  also have "card ?A = length positions" using distinct_card [OF dp] by (simp add: sp)
  also have "card (set ?P) = length cols" using distinct_card [OF dP] by simp
  finally have "count_non_cliffords tol c' = ?keep" using cols(3,4) by simp
  moreover have "0 \<le> py_round (f * real (length positions))"
    using py_round_bounds [of "f * real (length positions)" "length positions"] f
    by (simp add: mult_left_le_one_le)
  ultimately show "int (count_non_cliffords tol c') = py_round (f * real (count_non_cliffords tol c))"
    by (simp add: N)
qed

lemma map_to_near_clifford_returns:
  assumes "method_select \<in> {''random'', ''probabilistic''}"
    and "method_replace \<in> {''closest'', ''random'', ''probabilistic''}"
  obtains c' rs' where
    "map_to_near_clifford tol c f method_select method_replace sigma_select sigma_replace rs =
       Inr (c', rs')"
proof -
  let ?positions = "filter (\<lambda>i. is_non_clifford tol (c ! i)) [0..<length c]"
  let ?rz = "map (\<lambda>i. get_argument (c ! i)) ?positions"
  from assms(1) obtain cols rs1 where
    sel: "select ?rz f method_select sigma_select rs = Inr (cols, rs1)"
    by (rule select_returns)
  from assms(2) obtain new rs2 where
    "replace (map (\<lambda>k. ?rz ! k) cols) method_replace sigma_select sigma_replace rs1 = Inr (new, rs2)"
    by (rule replace_returns)
  with sel show ?thesis
    using that by (simp add: map_to_near_clifford_def Let_def)
qed

lemma generate_loop_props:
  assumes "\<And>rs. \<exists>c rs'. gen rs = Inr (c, rs')"
    and "\<And>rs c rs'. gen rs = Inr (c, rs') \<Longrightarrow> P c"
  shows "\<exists>cs rs'. generate_loop n gen rs = Inr (cs, rs') \<and> length cs = n \<and> list_all P cs"
proof (induction n arbitrary: rs)
  case 0
  show ?case by simp
next
  case (Suc n)
  from assms(1) obtain c rs1 where g: "gen rs = Inr (c, rs1)" by blast
  from Suc [of rs1] obtain cs rs2 where
    l: "generate_loop n gen rs1 = Inr (cs, rs2)" "length cs = n" "list_all P cs" by blast
  from assms(2) [OF g] g l show ?case by simp
qed

text \<open>
  Count conservation, under the rounding the specification words: for a fraction between 0
  and 1 and recognized policies, \<^verbatim>\<open>generate_training_circuits\<close> returns exactly \<open>n\<close>
  circuits; each has as many gates as the input circuit, acts on as many qubits, and holds
  exactly \<open>round (f \<times> non_clifford_count circuit)\<close> non-Clifford rotations. (The test module
  states the count with \<^verbatim>\<open>int\<close>, see \<open>select\<close>.)
\<close>

lemma generate_training_circuits_counts:
  assumes "0 \<le> tol" and "0 \<le> f" and "f \<le> 1"
    and "method_select \<in> {''random'', ''probabilistic''}"
    and "method_replace \<in> {''closest'', ''random'', ''probabilistic''}"
  shows "\<exists>cs rs'.
     generate_training_circuits tol circuit n f method_select method_replace sigma_select
       sigma_replace rs = Inr (cs, rs') \<and>
     length cs = n \<and>
     (\<forall>c \<in> set cs.
        length c = length circuit \<and>
        card (all_qubits c) = card (all_qubits circuit) \<and>
        int (count_non_cliffords tol c) = py_round (f * real (count_non_cliffords tol circuit)))"
proof -
  let ?gen = "map_to_near_clifford tol circuit f method_select method_replace sigma_select sigma_replace"
  let ?P = "\<lambda>c. length c = length circuit \<and> card (all_qubits c) = card (all_qubits circuit) \<and>
        int (count_non_cliffords tol c) = py_round (f * real (count_non_cliffords tol circuit))"
  have 1: "\<exists>c rs'. ?gen rs = Inr (c, rs')" for rs
    using map_to_near_clifford_returns [OF assms(4,5), of tol circuit f sigma_select sigma_replace rs]
    by blast
  have 2: "?P c" if "?gen rs = Inr (c, rs')" for rs c rs'
    using map_to_near_clifford_props [OF assms(1-3) that] by (simp add: all_qubits_def)
  have "\<exists>cs rs'. generate_loop n ?gen rs = Inr (cs, rs') \<and> length cs = n \<and> list_all ?P cs"
  proof (rule generate_loop_props)
    fix rs show "\<exists>c rs'. ?gen rs = Inr (c, rs')" by (rule 1)
  next
    fix rs c rs' assume "?gen rs = Inr (c, rs')"
    then show "?P c" by (rule 2)
  qed
  then show ?thesis
    unfolding generate_training_circuits_def list_all_iff by blast
qed

text \<open>
  At the example circuit, whose two rotations are non-Clifford, for two training circuits
  and the fraction \<open>1/2\<close>: each training circuit keeps one of them.
\<close>

lemma ex_angles_non_clifford:
  "\<not> is_clifford_angle (1 / 100) (1 / 2)" "\<not> is_clifford_angle (1 / 100) (1 / 4)"
proof -
  have "mod_2pi (1 / 2) = 1 / 2" "mod_2pi (1 / 4) = 1 / 4"
    using pi_ge_two by (simp_all add: mod_2pi_id)
  then show "\<not> is_clifford_angle (1 / 100) (1 / 2)" "\<not> is_clifford_angle (1 / 100) (1 / 4)"
    using pi_ge_two by (simp_all add: is_clifford_angle_def CLIFFORD_ANGLES_def)
qed

lemma generate_training_circuits_counts_example:
  "\<exists>cs rs'. generate_training_circuits (1 / 100) ex_circuit 2 (1 / 2) ''random'' ''closest'' 1 1
       ex_rs = Inr (cs, rs') \<and>
     length cs = 2 \<and> length (cs ! 0) = 3 \<and> card (all_qubits (cs ! 0)) = 2 \<and>
     count_non_cliffords (1 / 100) (cs ! 0) = 1 \<and> count_non_cliffords (1 / 100) (cs ! 1) = 1"
proof -
  have n: "count_non_cliffords (1 / 100) ex_circuit = 2"
    by (simp add: count_non_cliffords_def ex_circuit_def ex_angles_non_clifford)
  have r: "py_round (1 / 2 * real (2::nat)) = 1" by (simp add: py_round_def)
  have q: "card (all_qubits ex_circuit) = 2" by (simp add: all_qubits_def ex_circuit_def)
  have l: "length ex_circuit = 3" by (simp add: ex_circuit_def)
  have "(0::real) \<le> 1 / 100" "(0::real) \<le> 1 / 2" "(1 / 2 :: real) \<le> 1"
    "''random'' \<in> {''random'', ''probabilistic''}"
    "''closest'' \<in> {''closest'', ''random'', ''probabilistic''}" by simp_all
  from generate_training_circuits_counts [OF this, of ex_circuit 2 1 1 ex_rs]
  obtain cs rs' where cs:
    "generate_training_circuits (1 / 100) ex_circuit 2 (1 / 2) ''random'' ''closest'' 1 1 ex_rs =
       Inr (cs, rs')"
    "length cs = 2"
    "\<forall>c \<in> set cs. length c = 3 \<and> card (all_qubits c) = 2 \<and> int (count_non_cliffords (1 / 100) c) = 1"
    unfolding n r q l by blast
  from cs(2) have "cs ! 0 \<in> set cs" "cs ! 1 \<in> set cs" by simp_all
  with cs(3) have "length (cs ! 0) = 3" "card (all_qubits (cs ! 0)) = 2"
    "count_non_cliffords (1 / 100) (cs ! 0) = 1" "count_non_cliffords (1 / 100) (cs ! 1) = 1"
    by auto
  with cs(1,2) show ?thesis by blast
qed

section \<open>partition leaves the Observable's set as it was\<close>

lemma partition_while_eq:
  "r < length st \<Longrightarrow> st ! r = xs \<Longrightarrow>
   partition_while st r plists = (partition_loop can_be_measured_with xs plists, st[r := []])"
proof (induction xs arbitrary: st plists)
  case Nil
  then have "set_pop st r = None" by (simp add: set_pop_def set_at_def)
  moreover from Nil have "st[r := []] = st" by (metis list_update_id)
  ultimately show ?case by (simp add: partition_while.simps [of st])
next
  case (Cons x xs)
  then have pop: "set_pop st r = Some (x, st[r := xs])" by (simp add: set_pop_def set_at_def)
  obtain plists' added where a: "plists_add can_be_measured_with x plists = (plists', added)"
    by (cases "plists_add can_be_measured_with x plists")
  from Cons.prems have "r < length (st[r := xs])" "st[r := xs] ! r = xs" by simp_all
  from Cons.IH [OF this] show ?case
    by (simp add: partition_while.simps [of st] pop a)
qed

text \<open>
  The loop empties the set it is given. Run on the Observable's own set instead of the
  copy, it would leave the Observable without terms.
\<close>

lemma partition_while_empties:
  "r < length st \<Longrightarrow> set_at (snd (partition_while st r plists)) r = Some []"
  by (simp add: partition_while_eq set_at_def)




section \<open>Two runs on the same terms\<close>




end
